theory Spec2Isabelle
  imports Complex_Main
begin

section \<open>The banded weighted DTW kernel of \<^verbatim>\<open>oc_wdtw.cpp\<close>\<close>

text \<open>
  The source has one function, \<^verbatim>\<open>weighted_euclidean\<close>, which views four flat
  \<^verbatim>\<open>float\<close> buffers as row-major matrices and fills a band of the cost matrix.

  Modelling decisions.
  \<^item> A \<^verbatim>\<open>float*\<close> buffer is a \<open>real list\<close>; the row-major view of it with
    \<open>rows\<close> by \<open>cols\<close> coefficients reads the coefficient \<open>(i, j)\<close> at the flat
    index \<open>i * cols + j\<close>.  In this first embedding values are real numbers and the
    arithmetic is exact; it serves the claims about which cells the call writes and about
    exactly representable values.  The claims about the values written are stated on a
    second embedding, parametric in the arithmetic, with IEEE 754 binary32 (rounding,
    infinities, NaN) as an instance; see the subsections on the parametric kernel and on
    binary32 below.
  \<^item> Every indexed access checks the view's extents and the buffer's length and yields
    the error \<open>OutOfBounds\<close> otherwise, so an access outside a buffer is a branch of the
    model and not an unspecified value.
  \<^item> \<^verbatim>\<open>m\<close>, \<^verbatim>\<open>n\<close>, \<^verbatim>\<open>window\<close>, \<^verbatim>\<open>i\<close>, \<^verbatim>\<open>j\<close> are C \<^verbatim>\<open>int\<close>s, modelled
    as \<open>int\<close> with the 32-bit two's-complement wrap-around written out (\<open>i32\<close>) at the
    two expressions an \<^verbatim>\<open>int\<close> argument can make overflow, \<^verbatim>\<open>i - window\<close> and
    \<^verbatim>\<open>i + window\<close>.  The increments \<^verbatim>\<open>++i\<close>, \<^verbatim>\<open>++j\<close> and the decrements
    \<^verbatim>\<open>i - 1\<close>, \<^verbatim>\<open>j - 1\<close> are guarded by the loop conditions (\<open>1 \<le> i < m\<close>,
    \<open>1 \<le> j < m\<close>) and cannot overflow.
    Signed overflow is undefined behaviour in C++; the model takes the wrapped value, which
    is what the two's-complement targets of this code compute.
  \<^item> The two \<^verbatim>\<open>for\<close> loops are recursive functions that pass the cost buffer along.

  The loops of the source:
  \<^verbatim>\<open>
  for (int i = 1; i < m; ++i) {
    for (int j = std::max(1, i - window); j < std::min(m, i + window); ++j) {
      xi = X1.row(i);
      xj = X2.row(j);
      wi = weights(i, 0);
      wj = weights(j, 0);
      cost = wi * wj * sqrt(((xi - xj) * (xi - xj)).sum());
      costs(i, j) = cost + std::min(costs(i, j - 1),
          std::min(costs(i - 1, j), costs(i - 1, j - 1)));
    }
  }
  \<close>
\<close>

subsection \<open>Machine integers\<close>

definition int32 :: "int \<Rightarrow> bool" where
  "int32 x \<longleftrightarrow> - (2 ^ 31) \<le> x \<and> x < 2 ^ 31"

definition i32 :: "int \<Rightarrow> int" where
  "i32 x = (x + 2 ^ 31) mod 2 ^ 32 - 2 ^ 31"

subsection \<open>Buffers and row-major views\<close>

datatype error = OutOfBounds

definition bind_err :: "error + 'a \<Rightarrow> ('a \<Rightarrow> error + 'b) \<Rightarrow> error + 'b" where
  "bind_err r f = (case r of Inl e \<Rightarrow> Inl e | Inr v \<Rightarrow> f v)"

text \<open>\<^verbatim>\<open>M(i, j)\<close> as a read, for a view of \<open>rows\<close> by \<open>cols\<close> over \<open>buf\<close>.\<close>

definition coeff :: "real list \<Rightarrow> int \<Rightarrow> int \<Rightarrow> int \<Rightarrow> int \<Rightarrow> error + real" where
  "coeff buf rows cols i j =
     (if 0 \<le> i \<and> i < rows \<and> 0 \<le> j \<and> j < cols \<and> nat (i * cols + j) < length buf
      then Inr (buf ! nat (i * cols + j)) else Inl OutOfBounds)"

text \<open>\<^verbatim>\<open>M(i, j) = v\<close>.\<close>

definition coeff_upd :: "real list \<Rightarrow> int \<Rightarrow> int \<Rightarrow> int \<Rightarrow> int \<Rightarrow> real \<Rightarrow> error + real list" where
  "coeff_upd buf rows cols i j v =
     (if 0 \<le> i \<and> i < rows \<and> 0 \<le> j \<and> j < cols \<and> nat (i * cols + j) < length buf
      then Inr (buf[nat (i * cols + j) := v]) else Inl OutOfBounds)"

text \<open>\<^verbatim>\<open>M.row(i)\<close>, copied out: the \<open>cols\<close> coefficients from flat index \<open>i * cols\<close> on.\<close>

definition row :: "real list \<Rightarrow> int \<Rightarrow> int \<Rightarrow> int \<Rightarrow> error + real list" where
  "row buf rows cols i =
     (if 0 \<le> i \<and> i < rows \<and> 0 \<le> cols \<and> nat (i * cols + cols) \<le> length buf
      then Inr (take (nat cols) (drop (nat (i * cols)) buf)) else Inl OutOfBounds)"

subsection \<open>The kernel\<close>

text \<open>\<^verbatim>\<open>((xi - xj) * (xi - xj)).sum()\<close>, coefficient-wise on two rows.\<close>

definition sq_diff_sum :: "real list \<Rightarrow> real list \<Rightarrow> real" where
  "sq_diff_sum xi xj = sum_list (map2 (\<lambda>a b. (a - b) * (a - b)) xi xj)"

text \<open>The value assigned to \<^verbatim>\<open>cost\<close> in the loop body.\<close>

definition local_cost ::
  "real list \<Rightarrow> real list \<Rightarrow> real list \<Rightarrow> int \<Rightarrow> int \<Rightarrow> int \<Rightarrow> int \<Rightarrow> error + real" where
  "local_cost x1 x2 w m n i j =
     bind_err (row x1 m n i) (\<lambda>xi.
     bind_err (row x2 m n j) (\<lambda>xj.
     bind_err (coeff w m 1 i 0) (\<lambda>wi.
     bind_err (coeff w m 1 j 0) (\<lambda>wj.
       Inr (wi * wj * sqrt (sq_diff_sum xi xj))))))"

text \<open>One pass through the body of the inner loop.\<close>

definition loop_body ::
  "real list \<Rightarrow> real list \<Rightarrow> real list \<Rightarrow> int \<Rightarrow> int \<Rightarrow> int \<Rightarrow> int \<Rightarrow> real list
     \<Rightarrow> error + real list" where
  "loop_body x1 x2 w m n i j costs =
     bind_err (local_cost x1 x2 w m n i j) (\<lambda>cost.
     bind_err (coeff costs m m i (j - 1)) (\<lambda>a.
     bind_err (coeff costs m m (i - 1) j) (\<lambda>b.
     bind_err (coeff costs m m (i - 1) (j - 1)) (\<lambda>c.
       coeff_upd costs m m i j (cost + min a (min b c))))))"

text \<open>The bounds of the inner loop: \<^verbatim>\<open>std::max(1, i - window)\<close> and
  \<^verbatim>\<open>std::min(m, i + window)\<close>.\<close>

definition band_lo :: "int \<Rightarrow> int \<Rightarrow> int" where
  "band_lo window i = max 1 (i32 (i - window))"

definition band_hi :: "int \<Rightarrow> int \<Rightarrow> int \<Rightarrow> int" where
  "band_hi m window i = min m (i32 (i + window))"

function inner_loop ::
  "real list \<Rightarrow> real list \<Rightarrow> real list \<Rightarrow> int \<Rightarrow> int \<Rightarrow> int \<Rightarrow> int \<Rightarrow> int \<Rightarrow> real list
     \<Rightarrow> error + real list" where
  "inner_loop x1 x2 w m n window i j costs =
     (if j < band_hi m window i
      then (case loop_body x1 x2 w m n i j costs of
              Inl e \<Rightarrow> Inl e
            | Inr costs' \<Rightarrow> inner_loop x1 x2 w m n window i (j + 1) costs')
      else Inr costs)"
  by pat_completeness auto
termination
  by (relation "measure (\<lambda>(x1, x2, w, m, n, window, i, j, costs).
        nat (band_hi m window i - j))") auto

function outer_loop ::
  "real list \<Rightarrow> real list \<Rightarrow> real list \<Rightarrow> int \<Rightarrow> int \<Rightarrow> int \<Rightarrow> int \<Rightarrow> real list
     \<Rightarrow> error + real list" where
  "outer_loop x1 x2 w m n window i costs =
     (if i < m
      then (case inner_loop x1 x2 w m n window i (band_lo window i) costs of
              Inl e \<Rightarrow> Inl e
            | Inr costs' \<Rightarrow> outer_loop x1 x2 w m n window (i + 1) costs')
      else Inr costs)"
  by pat_completeness auto
termination
  by (relation "measure (\<lambda>(x1, x2, w, m, n, window, i, costs). nat (m - i))") auto

definition weighted_euclidean ::
  "real list \<Rightarrow> real list \<Rightarrow> real list \<Rightarrow> int \<Rightarrow> int \<Rightarrow> int \<Rightarrow> real list
     \<Rightarrow> error + real list" where
  "weighted_euclidean x1 x2 w m n window costs_out =
     outer_loop x1 x2 w m n window 1 costs_out"

subsection \<open>Vocabulary of the specification\<close>

text \<open>\<open>C(i, j)\<close>: the cost matrix is \<open>m\<close> by \<open>m\<close>, row-major.\<close>

definition cell :: "real list \<Rightarrow> int \<Rightarrow> int \<Rightarrow> int \<Rightarrow> real" where
  "cell costs m i j = costs ! nat (i * m + j)"

text \<open>The declared extents: \<open>X1\<close> and \<open>X2\<close> are \<open>m\<close> by \<open>n\<close>, \<open>W\<close> has \<open>m\<close>
  entries, \<open>C\<close> is \<open>m\<close> by \<open>m\<close>, with \<open>m \<ge> 1\<close> and \<open>n \<ge> 0\<close>.\<close>

definition extents_ok ::
  "real list \<Rightarrow> real list \<Rightarrow> real list \<Rightarrow> int \<Rightarrow> int \<Rightarrow> real list \<Rightarrow> bool" where
  "extents_ok x1 x2 w m n costs \<longleftrightarrow>
     1 \<le> m \<and> 0 \<le> n \<and>
     length x1 = nat (m * n) \<and> length x2 = nat (m * n) \<and>
     length w = nat m \<and> length costs = nat (m * m)"

text \<open>The local cost in the specification's words:
  \<open>W[i] * W[j] * sqrt (\<Sum>k<n. (X1[i,k] - X2[j,k])\<^sup>2)\<close>.\<close>

definition spec_local_cost ::
  "real list \<Rightarrow> real list \<Rightarrow> real list \<Rightarrow> int \<Rightarrow> int \<Rightarrow> int \<Rightarrow> real" where
  "spec_local_cost x1 x2 w n i j =
     w ! nat i * w ! nat j *
       sqrt (\<Sum>k<nat n. (x1 ! (nat (i * n) + k) - x2 ! (nat (j * n) + k))\<^sup>2)"

text \<open>Local cost plus the minimum of the three predecessors, read from \<open>costs\<close>.\<close>

definition recurrence ::
  "real list \<Rightarrow> real list \<Rightarrow> real list \<Rightarrow> int \<Rightarrow> int \<Rightarrow> real list \<Rightarrow> int \<Rightarrow> int \<Rightarrow> real" where
  "recurrence x1 x2 w m n costs i j =
     spec_local_cost x1 x2 w n i j +
       min (cell costs m i (j - 1)) (min (cell costs m (i - 1) j) (cell costs m (i - 1) (j - 1)))"

text \<open>The cells the loops visit: \<open>i\<close> in \<open>[1, m)\<close> and \<open>j\<close> between the inner
  loop's own bounds.\<close>

definition in_band :: "int \<Rightarrow> int \<Rightarrow> int \<Rightarrow> int \<Rightarrow> bool" where
  "in_band m window i j \<longleftrightarrow>
     1 \<le> i \<and> i < m \<and> band_lo window i \<le> j \<and> j < band_hi m window i"

text \<open>The loop invariant at the head of the inner loop with counters \<open>i\<close>, \<open>j\<close>: the
  band cells before \<open>(i, j)\<close> in row-major order satisfy the recurrence, every other
  cell still holds its initial value.\<close>

definition filled_before ::
  "real list \<Rightarrow> real list \<Rightarrow> real list \<Rightarrow> int \<Rightarrow> int \<Rightarrow> int \<Rightarrow> real list
     \<Rightarrow> int \<Rightarrow> int \<Rightarrow> real list \<Rightarrow> bool" where
  "filled_before x1 x2 w m n window costs0 i j costs \<longleftrightarrow>
     length costs = length costs0 \<and>
     (\<forall>a b. 0 \<le> a \<and> a < m \<and> 0 \<le> b \<and> b < m \<longrightarrow>
        cell costs m a b =
          (if in_band m window a b \<and> (a < i \<or> (a = i \<and> b < j))
           then recurrence x1 x2 w m n costs a b else cell costs0 m a b))"



subsection \<open>The kernel over an arbitrary arithmetic\<close>

text \<open>
  Which cells the kernel writes does not depend on the arithmetic; what it writes does.
  The source computes in 32-bit \<^verbatim>\<open>float\<close>: every operation rounds, a product can
  overflow to an infinity and \<open>inf * 0\<close> is a NaN.  For the claims about the values
  written, the kernel is therefore embedded a second time, with the same accessors and the
  same loops but with the scalar operations of the source as parameters: subtraction and
  multiplication of coefficients, the reduction \<^verbatim>\<open>.sum()\<close>, \<^verbatim>\<open>sqrt\<close>, the addition
  and the comparison \<open><\<close> behind \<^verbatim>\<open>std::min\<close>.  A theorem about this embedding
  holds for the binary32 operations of the compiled code, whatever they round to, and for
  exact real arithmetic.
\<close>

record 'a arith =
  a_zero :: 'a
  a_add :: "'a \<Rightarrow> 'a \<Rightarrow> 'a"
  a_sub :: "'a \<Rightarrow> 'a \<Rightarrow> 'a"
  a_mul :: "'a \<Rightarrow> 'a \<Rightarrow> 'a"
  a_sqrt :: "'a \<Rightarrow> 'a"
  a_sum :: "'a list \<Rightarrow> 'a"
  a_less :: "'a \<Rightarrow> 'a \<Rightarrow> bool"

text \<open>\<^verbatim>\<open>std::min(a, b)\<close> is \<^verbatim>\<open>(b < a) ? b : a\<close>.\<close>

definition a_min :: "'a arith \<Rightarrow> 'a \<Rightarrow> 'a \<Rightarrow> 'a" where
  "a_min ar a b = (if a_less ar b a then b else a)"

text \<open>The bounds-checked accessors, for buffers of any scalar type.\<close>

definition elem :: "'a list \<Rightarrow> int \<Rightarrow> int \<Rightarrow> int \<Rightarrow> int \<Rightarrow> error + 'a" where
  "elem buf rows cols i j =
     (if 0 \<le> i \<and> i < rows \<and> 0 \<le> j \<and> j < cols \<and> nat (i * cols + j) < length buf
      then Inr (buf ! nat (i * cols + j)) else Inl OutOfBounds)"

definition elem_upd :: "'a list \<Rightarrow> int \<Rightarrow> int \<Rightarrow> int \<Rightarrow> int \<Rightarrow> 'a \<Rightarrow> error + 'a list" where
  "elem_upd buf rows cols i j v =
     (if 0 \<le> i \<and> i < rows \<and> 0 \<le> j \<and> j < cols \<and> nat (i * cols + j) < length buf
      then Inr (buf[nat (i * cols + j) := v]) else Inl OutOfBounds)"

definition row_of :: "'a list \<Rightarrow> int \<Rightarrow> int \<Rightarrow> int \<Rightarrow> error + 'a list" where
  "row_of buf rows cols i =
     (if 0 \<le> i \<and> i < rows \<and> 0 \<le> cols \<and> nat (i * cols + cols) \<le> length buf
      then Inr (take (nat cols) (drop (nat (i * cols)) buf)) else Inl OutOfBounds)"

text \<open>\<^verbatim>\<open>(xi - xj) * (xi - xj)\<close>, coefficient by coefficient.\<close>

definition sq_diffs :: "'a arith \<Rightarrow> 'a list \<Rightarrow> 'a list \<Rightarrow> 'a list" where
  "sq_diffs ar xi xj = map2 (\<lambda>a b. a_mul ar (a_sub ar a b) (a_sub ar a b)) xi xj"

text \<open>\<^verbatim>\<open>cost = wi * wj * sqrt(((xi - xj) * (xi - xj)).sum())\<close>, the product taken from
  the left as C++ does.\<close>

definition local_cost_on ::
  "'a arith \<Rightarrow> 'a list \<Rightarrow> 'a list \<Rightarrow> 'a list \<Rightarrow> int \<Rightarrow> int \<Rightarrow> int \<Rightarrow> int \<Rightarrow> error + 'a" where
  "local_cost_on ar x1 x2 w m n i j =
     bind_err (row_of x1 m n i) (\<lambda>xi.
     bind_err (row_of x2 m n j) (\<lambda>xj.
     bind_err (elem w m 1 i 0) (\<lambda>wi.
     bind_err (elem w m 1 j 0) (\<lambda>wj.
       Inr (a_mul ar (a_mul ar wi wj) (a_sqrt ar (a_sum ar (sq_diffs ar xi xj))))))))"

definition loop_body_on ::
  "'a arith \<Rightarrow> 'a list \<Rightarrow> 'a list \<Rightarrow> 'a list \<Rightarrow> int \<Rightarrow> int \<Rightarrow> int \<Rightarrow> int \<Rightarrow> 'a list
     \<Rightarrow> error + 'a list" where
  "loop_body_on ar x1 x2 w m n i j costs =
     bind_err (local_cost_on ar x1 x2 w m n i j) (\<lambda>cost.
     bind_err (elem costs m m i (j - 1)) (\<lambda>a.
     bind_err (elem costs m m (i - 1) j) (\<lambda>b.
     bind_err (elem costs m m (i - 1) (j - 1)) (\<lambda>c.
       elem_upd costs m m i j (a_add ar cost (a_min ar a (a_min ar b c)))))))"

function inner_loop_on ::
  "'a arith \<Rightarrow> 'a list \<Rightarrow> 'a list \<Rightarrow> 'a list \<Rightarrow> int \<Rightarrow> int \<Rightarrow> int \<Rightarrow> int \<Rightarrow> int \<Rightarrow> 'a list
     \<Rightarrow> error + 'a list" where
  "inner_loop_on ar x1 x2 w m n window i j costs =
     (if j < band_hi m window i
      then (case loop_body_on ar x1 x2 w m n i j costs of
              Inl e \<Rightarrow> Inl e
            | Inr costs' \<Rightarrow> inner_loop_on ar x1 x2 w m n window i (j + 1) costs')
      else Inr costs)"
  by pat_completeness auto
termination
  by (relation "measure (\<lambda>(ar, x1, x2, w, m, n, window, i, j, costs).
        nat (band_hi m window i - j))") auto

function outer_loop_on ::
  "'a arith \<Rightarrow> 'a list \<Rightarrow> 'a list \<Rightarrow> 'a list \<Rightarrow> int \<Rightarrow> int \<Rightarrow> int \<Rightarrow> int \<Rightarrow> 'a list
     \<Rightarrow> error + 'a list" where
  "outer_loop_on ar x1 x2 w m n window i costs =
     (if i < m
      then (case inner_loop_on ar x1 x2 w m n window i (band_lo window i) costs of
              Inl e \<Rightarrow> Inl e
            | Inr costs' \<Rightarrow> outer_loop_on ar x1 x2 w m n window (i + 1) costs')
      else Inr costs)"
  by pat_completeness auto
termination
  by (relation "measure (\<lambda>(ar, x1, x2, w, m, n, window, i, costs). nat (m - i))") auto

definition weighted_euclidean_on ::
  "'a arith \<Rightarrow> 'a list \<Rightarrow> 'a list \<Rightarrow> 'a list \<Rightarrow> int \<Rightarrow> int \<Rightarrow> int \<Rightarrow> 'a list
     \<Rightarrow> error + 'a list" where
  "weighted_euclidean_on ar x1 x2 w m n window costs_out =
     outer_loop_on ar x1 x2 w m n window 1 costs_out"

text \<open>Exact real arithmetic.  At this arithmetic the parametric kernel is the kernel of the
  previous subsection (\<open>weighted_euclidean_real_arith\<close> below).\<close>

definition real_arith :: "real arith" where
  "real_arith = \<lparr>a_zero = 0, a_add = (+), a_sub = (-), a_mul = (*), a_sqrt = sqrt,
                 a_sum = sum_list, a_less = (<)\<rparr>"

subsection \<open>Binary32 arithmetic\<close>

text \<open>
  The arithmetic of the compiled kernel: IEEE 754 binary32 with rounding to nearest, ties
  to even.  A value is a real number (\<open>Fin\<close>), an infinity or a NaN; the two zeros are
  not distinguished, which no comparison of the kernel can observe.  \<open>round32\<close> rounds a
  real number to 24 significant bits at the exponent of its magnitude, not below the
  subnormal exponent \<open>- 149\<close>, and overflows to an infinity when the rounded magnitude
  reaches \<open>2^128\<close>.  Every operation is the correctly rounded one; \<^verbatim>\<open>sqrt\<close> is
  the \<^verbatim>\<open>float\<close> overload that the header brings into C++.  The reduction adds in
  index order; a build that vectorises it adds in another order, which can change the
  last bits of a sum and none of the theorems, since they hold for every arithmetic.
\<close>

datatype f32 = Fin real | PInf | NInf | NaN

text \<open>Rounding to the nearest integer, ties to even.\<close>

definition rne :: "real \<Rightarrow> int" where
  "rne q = (let f = \<lfloor>q\<rfloor>; r = q - of_int f
            in if r < 1 / 2 then f else if 1 / 2 < r then f + 1
               else if even f then f else f + 1)"

text \<open>The exponent of the last place of a non-zero \<open>x\<close>.\<close>

definition ulp_exp :: "real \<Rightarrow> int" where
  "ulp_exp x = max (- 149) (\<lfloor>log 2 \<bar>x\<bar>\<rfloor> - 23)"

definition round32 :: "real \<Rightarrow> f32" where
  "round32 x =
     (if x = 0 then Fin 0
      else let y = of_int (rne (x / 2 powi ulp_exp x)) * 2 powi ulp_exp x
           in if 2 ^ 128 \<le> \<bar>y\<bar> then (if 0 < x then PInf else NInf) else Fin y)"

fun f_neg :: "f32 \<Rightarrow> f32" where
  "f_neg (Fin a) = Fin (- a)"
| "f_neg PInf = NInf"
| "f_neg NInf = PInf"
| "f_neg NaN = NaN"

fun f_add :: "f32 \<Rightarrow> f32 \<Rightarrow> f32" where
  "f_add NaN v = NaN"
| "f_add (Fin a) (Fin b) = round32 (a + b)"
| "f_add (Fin a) v = v"
| "f_add PInf (Fin b) = PInf"
| "f_add PInf PInf = PInf"
| "f_add PInf NInf = NaN"
| "f_add PInf NaN = NaN"
| "f_add NInf (Fin b) = NInf"
| "f_add NInf NInf = NInf"
| "f_add NInf PInf = NaN"
| "f_add NInf NaN = NaN"

definition f_sub :: "f32 \<Rightarrow> f32 \<Rightarrow> f32" where
  "f_sub u v = f_add u (f_neg v)"

fun f_mul :: "f32 \<Rightarrow> f32 \<Rightarrow> f32" where
  "f_mul NaN v = NaN"
| "f_mul (Fin a) (Fin b) = round32 (a * b)"
| "f_mul (Fin a) PInf = (if a = 0 then NaN else if 0 < a then PInf else NInf)"
| "f_mul (Fin a) NInf = (if a = 0 then NaN else if 0 < a then NInf else PInf)"
| "f_mul (Fin a) NaN = NaN"
| "f_mul PInf (Fin b) = (if b = 0 then NaN else if 0 < b then PInf else NInf)"
| "f_mul PInf PInf = PInf"
| "f_mul PInf NInf = NInf"
| "f_mul PInf NaN = NaN"
| "f_mul NInf (Fin b) = (if b = 0 then NaN else if 0 < b then NInf else PInf)"
| "f_mul NInf PInf = NInf"
| "f_mul NInf NInf = PInf"
| "f_mul NInf NaN = NaN"

fun f_sqrt :: "f32 \<Rightarrow> f32" where
  "f_sqrt (Fin a) = (if a < 0 then NaN else round32 (sqrt a))"
| "f_sqrt PInf = PInf"
| "f_sqrt NInf = NaN"
| "f_sqrt NaN = NaN"

text \<open>\<open><\<close>: false as soon as one side is a NaN.\<close>

fun f_less :: "f32 \<Rightarrow> f32 \<Rightarrow> bool" where
  "f_less NaN v = False"
| "f_less u NaN = False"
| "f_less (Fin a) (Fin b) = (a < b)"
| "f_less (Fin a) PInf = True"
| "f_less (Fin a) NInf = False"
| "f_less PInf v = False"
| "f_less NInf NInf = False"
| "f_less NInf v = True"

definition f_sum :: "f32 list \<Rightarrow> f32" where
  "f_sum vs = foldl f_add (Fin 0) vs"

definition f32_arith :: "f32 arith" where
  "f32_arith = \<lparr>a_zero = Fin 0, a_add = f_add, a_sub = f_sub, a_mul = f_mul,
                 a_sqrt = f_sqrt, a_sum = f_sum, a_less = f_less\<rparr>"

subsection \<open>Vocabulary of the specification, for any arithmetic\<close>

text \<open>\<open>C(i, j)\<close> and the declared extents, for buffers of any scalar type.\<close>

definition entry :: "'a list \<Rightarrow> int \<Rightarrow> int \<Rightarrow> int \<Rightarrow> 'a" where
  "entry costs m i j = costs ! nat (i * m + j)"

definition shape_ok ::
  "'a list \<Rightarrow> 'a list \<Rightarrow> 'a list \<Rightarrow> int \<Rightarrow> int \<Rightarrow> 'a list \<Rightarrow> bool" where
  "shape_ok x1 x2 w m n costs \<longleftrightarrow>
     1 \<le> m \<and> 0 \<le> n \<and>
     length x1 = nat (m * n) \<and> length x2 = nat (m * n) \<and>
     length w = nat m \<and> length costs = nat (m * m)"

text \<open>The band in the specification's words, in unbounded integer arithmetic:
  \<open>i\<close> in \<open>[1, m)\<close> and \<open>j\<close> in \<open>[max(1, i - window), min(m, i + window))\<close>.\<close>

definition spec_band :: "int \<Rightarrow> int \<Rightarrow> int \<Rightarrow> int \<Rightarrow> bool" where
  "spec_band m window i j \<longleftrightarrow>
     1 \<le> i \<and> i < m \<and> max 1 (i - window) \<le> j \<and> j < min m (i + window)"

text \<open>The local cost in the specification's words,
  \<open>W[i] * W[j] * sqrt (\<Sum>k<n. (X1[i,k] - X2[j,k])\<^sup>2)\<close>, in the operations of the
  arithmetic.\<close>

definition spec_local_cost_on ::
  "'a arith \<Rightarrow> 'a list \<Rightarrow> 'a list \<Rightarrow> 'a list \<Rightarrow> int \<Rightarrow> int \<Rightarrow> int \<Rightarrow> 'a" where
  "spec_local_cost_on ar x1 x2 w n i j =
     a_mul ar (a_mul ar (w ! nat i) (w ! nat j))
       (a_sqrt ar (a_sum ar (map (\<lambda>k.
          a_mul ar (a_sub ar (x1 ! (nat (i * n) + k)) (x2 ! (nat (j * n) + k)))
                   (a_sub ar (x1 ! (nat (i * n) + k)) (x2 ! (nat (j * n) + k))))
          [0..<nat n])))"

definition recurrence_on ::
  "'a arith \<Rightarrow> 'a list \<Rightarrow> 'a list \<Rightarrow> 'a list \<Rightarrow> int \<Rightarrow> int \<Rightarrow> 'a list \<Rightarrow> int \<Rightarrow> int \<Rightarrow> 'a" where
  "recurrence_on ar x1 x2 w m n costs i j =
     a_add ar (spec_local_cost_on ar x1 x2 w n i j)
       (a_min ar (entry costs m i (j - 1))
          (a_min ar (entry costs m (i - 1) j) (entry costs m (i - 1) (j - 1))))"

text \<open>The loop invariant of the parametric kernel.\<close>

definition filled_before_on ::
  "'a arith \<Rightarrow> 'a list \<Rightarrow> 'a list \<Rightarrow> 'a list \<Rightarrow> int \<Rightarrow> int \<Rightarrow> int \<Rightarrow> 'a list
     \<Rightarrow> int \<Rightarrow> int \<Rightarrow> 'a list \<Rightarrow> bool" where
  "filled_before_on ar x1 x2 w m n window init i j costs \<longleftrightarrow>
     length costs = length init \<and>
     (\<forall>a b. 0 \<le> a \<and> a < m \<and> 0 \<le> b \<and> b < m \<longrightarrow>
        entry costs m a b =
          (if in_band m window a b \<and> (a < i \<or> (a = i \<and> b < j))
           then recurrence_on ar x1 x2 w m n costs a b else entry init m a b))"

text \<open>What a predecessor cell holds when it is read: the value the call wrote to it if it
  is a cell of the specification's band, the caller's value otherwise.\<close>

definition held :: "int \<Rightarrow> int \<Rightarrow> 'a list \<Rightarrow> 'a list \<Rightarrow> int \<Rightarrow> int \<Rightarrow> 'a" where
  "held m window init costs' a b =
     (if spec_band m window a b then entry costs' m a b else entry init m a b)"

text \<open>A boundary cell that the recurrence reads: outside the specification's band, and
  the left, upper or diagonal predecessor of a cell of the band.\<close>

definition spec_boundary :: "int \<Rightarrow> int \<Rightarrow> int \<Rightarrow> int \<Rightarrow> bool" where
  "spec_boundary m window a b \<longleftrightarrow>
     \<not> spec_band m window a b \<and>
     (spec_band m window a (b + 1) \<or> spec_band m window (a + 1) b \<or>
      spec_band m window (a + 1) (b + 1))"

text \<open>Not negative: not below zero in the comparison of the arithmetic.  In binary32
  that is a non-negative number, \<open>+inf\<close> or a NaN.\<close>

definition not_neg :: "'a arith \<Rightarrow> 'a \<Rightarrow> bool" where
  "not_neg ar v \<longleftrightarrow> \<not> a_less ar v (a_zero ar)"

text \<open>The sign rules the proof of non-negativity uses.  They hold in binary32
  (\<open>sign_laws_f32\<close>) and in exact real arithmetic (\<open>sign_laws_real\<close>).\<close>

definition sign_laws :: "'a arith \<Rightarrow> bool" where
  "sign_laws ar \<longleftrightarrow>
     (\<forall>d. not_neg ar (a_mul ar d d)) \<and>
     (\<forall>a b. not_neg ar a \<and> not_neg ar b \<longrightarrow> not_neg ar (a_mul ar a b)) \<and>
     (\<forall>a b. not_neg ar a \<and> not_neg ar b \<longrightarrow> not_neg ar (a_add ar a b)) \<and>
     (\<forall>v. not_neg ar v \<longrightarrow> not_neg ar (a_sqrt ar v)) \<and>
     (\<forall>vs. (\<forall>v\<in>set vs. not_neg ar v) \<longrightarrow> not_neg ar (a_sum ar vs))"

declare inner_loop.simps [simp del] outer_loop.simps [simp del]
declare inner_loop_on.simps [simp del] outer_loop_on.simps [simp del]

section \<open>Accesses within the extents\<close>

lemma flat_index_less:
  assumes "0 \<le> i" "i < m" "0 \<le> j" "j < n"
  shows "i * n + j < m * (n::int)"
proof -
  have "i * n + j < i * n + n" using assms by simp
  also have "\<dots> = (i + 1) * n" by (simp add: algebra_simps)
  also have "\<dots> \<le> m * n" using assms by (intro mult_right_mono) auto
  finally show ?thesis .
qed

lemma flat_index_inj:
  assumes "0 \<le> j" "j < m" "0 \<le> b" "b < m" "i * m + j = a * m + b"
  shows "i = a \<and> j = (b::int)"
proof -
  have l: "(i * m + j) div m = i" "(i * m + j) mod m = j" using assms(1,2) by simp_all
  have r: "(a * m + b) div m = a" "(a * m + b) mod m = b" using assms(3,4) by simp_all
  have "i = a" using l(1) r(1) assms(5) by metis
  moreover have "j = b" using l(2) r(2) assms(5) by metis
  ultimately show ?thesis by simp
qed

lemma sq_diff_sum_rows:
  assumes "a + n \<le> length xs" "b + n \<le> length ys"
  shows "sq_diff_sum (take n (drop a xs)) (take n (drop b ys))
         = (\<Sum>k<n. (xs ! (a + k) - ys ! (b + k))\<^sup>2)"
proof -
  let ?zs = "map2 (\<lambda>u v. (u - v) * (u - v)) (take n (drop a xs)) (take n (drop b ys))"
  have len: "length ?zs = n" using assms by simp
  have "sum_list ?zs = (\<Sum>k = 0..<n. ?zs ! k)"
    using len by (simp add: sum_list_sum_nth)
  also have "\<dots> = (\<Sum>k = 0..<n. (xs ! (a + k) - ys ! (b + k))\<^sup>2)"
    using assms by (intro sum.cong) (auto simp: power2_eq_square)
  finally show ?thesis by (simp add: sq_diff_sum_def atLeast0LessThan)
qed

lemma row_ok:
  assumes "0 \<le> i" "i < m" "0 \<le> n" "length buf = nat (m * n)"
  shows "row buf m n i = Inr (take (nat n) (drop (nat (i * n)) buf))"
    and "nat (i * n) + nat n \<le> length buf"
proof -
  have "i * n + n = (i + 1) * n" by (simp add: algebra_simps)
  also have "\<dots> \<le> m * n" using assms by (intro mult_right_mono) auto
  finally have le: "i * n + n \<le> m * n" .
  have nn: "0 \<le> i * n" using assms by simp
  show "row buf m n i = Inr (take (nat n) (drop (nat (i * n)) buf))"
    using assms le by (simp add: row_def nat_le_eq_zle)
  show "nat (i * n) + nat n \<le> length buf"
    using assms le nn by (simp add: nat_add_distrib[symmetric] nat_le_eq_zle)
qed

lemma local_cost_ok:
  assumes "extents_ok x1 x2 w m n costs" "0 \<le> i" "i < m" "0 \<le> j" "j < m"
  shows "local_cost x1 x2 w m n i j = Inr (spec_local_cost x1 x2 w n i j)"
proof -
  have e: "0 \<le> n" "length x1 = nat (m * n)" "length x2 = nat (m * n)" "length w = nat m"
    using assms(1) by (simp_all add: extents_ok_def)
  note r1 = row_ok[OF assms(2,3) e(1) e(2)]
  note r2 = row_ok[OF assms(4,5) e(1) e(3)]
  have wi: "coeff w m 1 i 0 = Inr (w ! nat i)" using assms e by (simp add: coeff_def)
  have wj: "coeff w m 1 j 0 = Inr (w ! nat j)" using assms e by (simp add: coeff_def)
  show ?thesis
    by (simp add: local_cost_def bind_err_def r1(1) r2(1) wi wj
        sq_diff_sum_rows[OF r1(2) r2(2)] spec_local_cost_def)
qed

lemma loop_body_ok:
  assumes "extents_ok x1 x2 w m n costs" "1 \<le> i" "i < m" "1 \<le> j" "j < m"
  shows "loop_body x1 x2 w m n i j costs
         = Inr (costs[nat (i * m + j) := recurrence x1 x2 w m n costs i j])"
proof -
  have len: "length costs = nat (m * m)" using assms(1) by (simp add: extents_ok_def)
  have lc: "local_cost x1 x2 w m n i j = Inr (spec_local_cost x1 x2 w n i j)"
    using assms by (intro local_cost_ok) auto
  have b: "a * m + b < m * m" if "0 \<le> a" "a < m" "0 \<le> b" "b < m" for a b
    using that by (rule flat_index_less)
  have c1: "coeff costs m m i (j - 1) = Inr (cell costs m i (j - 1))"
    using assms b[of i "j - 1"] len by (simp add: coeff_def cell_def)
  have c2: "coeff costs m m (i - 1) j = Inr (cell costs m (i - 1) j)"
    using assms b[of "i - 1" j] len by (simp add: coeff_def cell_def)
  have c3: "coeff costs m m (i - 1) (j - 1) = Inr (cell costs m (i - 1) (j - 1))"
    using assms b[of "i - 1" "j - 1"] len by (simp add: coeff_def cell_def)
  have u: "coeff_upd costs m m i j v = Inr (costs[nat (i * m + j) := v])" for v
    using assms b[of i j] len by (simp add: coeff_upd_def)
  show ?thesis
    by (simp add: loop_body_def bind_err_def lc c1 c2 c3 u recurrence_def)
qed

lemma in_band_range: "in_band m window i j \<Longrightarrow> 1 \<le> i \<and> i < m \<and> 1 \<le> j \<and> j < m"
  by (auto simp: in_band_def band_lo_def band_hi_def)

lemma cell_update:
  assumes "length costs = nat (m * m)"
    and "0 \<le> a" "a < m" "0 \<le> b" "b < m" "0 \<le> i" "i < m" "0 \<le> j" "j < m"
  shows "cell (costs[nat (i * m + j) := v]) m a b = (if a = i \<and> b = j then v else cell costs m a b)"
proof -
  have lt: "i * m + j < m * m" using assms by (intro flat_index_less) auto
  have nn: "0 \<le> i * m + j" "0 \<le> a * m + b" using assms by simp_all
  have "nat (i * m + j) = nat (a * m + b) \<longleftrightarrow> i * m + j = a * m + b"
    using nn by (simp add: eq_nat_nat_iff)
  also have "\<dots> \<longleftrightarrow> i = a \<and> j = b"
    using flat_index_inj[of j m b i a] assms(4,5,8,9) by blast
  finally have "nat (i * m + j) = nat (a * m + b) \<longleftrightarrow> i = a \<and> j = b" .
  then show ?thesis
    using assms(1) lt nn by (auto simp: cell_def nth_list_update)
qed

lemma recurrence_update:
  assumes "length costs = nat (m * m)"
    and "1 \<le> a" "a < m" "1 \<le> b" "b < m" "1 \<le> i" "i < m" "1 \<le> j" "j < m"
    and "a < i \<or> (a = i \<and> b \<le> j)"
  shows "recurrence x1 x2 w m n (costs[nat (i * m + j) := v]) a b = recurrence x1 x2 w m n costs a b"
proof -
  have "cell (costs[nat (i * m + j) := v]) m a (b - 1) = cell costs m a (b - 1)"
    using assms by (subst cell_update) auto
  moreover have "cell (costs[nat (i * m + j) := v]) m (a - 1) b = cell costs m (a - 1) b"
    using assms by (subst cell_update) auto
  moreover have "cell (costs[nat (i * m + j) := v]) m (a - 1) (b - 1) = cell costs m (a - 1) (b - 1)"
    using assms by (subst cell_update) auto
  ultimately show ?thesis by (simp add: recurrence_def)
qed

lemma filled_before_step:
  assumes ext: "extents_ok x1 x2 w m n costs0"
    and i: "1 \<le> i" "i < m" and j: "band_lo window i \<le> j" "j < band_hi m window i"
    and inv: "filled_before x1 x2 w m n window costs0 i j costs"
  shows "filled_before x1 x2 w m n window costs0 i (j + 1)
           (costs[nat (i * m + j) := recurrence x1 x2 w m n costs i j])"
proof -
  let ?v = "recurrence x1 x2 w m n costs i j"
  let ?c = "costs[nat (i * m + j) := ?v]"
  have len: "length costs = nat (m * m)"
    using ext inv by (simp add: extents_ok_def filled_before_def)
  have band: "in_band m window i j" using i j by (simp add: in_band_def)
  have rj: "1 \<le> j" "j < m" using in_band_range[OF band] by simp_all
  have "cell ?c m a b =
          (if in_band m window a b \<and> (a < i \<or> (a = i \<and> b < j + 1))
           then recurrence x1 x2 w m n ?c a b else cell costs0 m a b)"
    if r: "0 \<le> a" "a < m" "0 \<le> b" "b < m" for a b
  proof (cases "a = i \<and> b = j")
    case True
    have "recurrence x1 x2 w m n ?c i j = ?v"
      using len i rj by (intro recurrence_update) auto
    moreover have "cell ?c m i j = ?v"
      using len i rj by (subst cell_update) auto
    ultimately show ?thesis using True band by simp
  next
    case False
    have old: "cell costs m a b =
          (if in_band m window a b \<and> (a < i \<or> (a = i \<and> b < j))
           then recurrence x1 x2 w m n costs a b else cell costs0 m a b)"
      using inv r by (simp add: filled_before_def)
    have same: "cell ?c m a b = cell costs m a b"
      using len i rj r False by (subst cell_update) auto
    show ?thesis
    proof (cases "in_band m window a b \<and> (a < i \<or> (a = i \<and> b < j))")
      case True
      then have ra: "1 \<le> a" "1 \<le> b" using in_band_range[of m window a b] by simp_all
      have "recurrence x1 x2 w m n ?c a b = recurrence x1 x2 w m n costs a b"
        using len ra r i rj True by (intro recurrence_update) auto
      then show ?thesis using True same old by auto
    next
      case F2: False
      then have "\<not> (in_band m window a b \<and> (a < i \<or> (a = i \<and> b < j + 1)))"
        using False by auto
      then show ?thesis using F2 same old by auto
    qed
  qed
  then show ?thesis using inv by (simp add: filled_before_def)
qed

lemma filled_before_shift:
  assumes inv: "filled_before x1 x2 w m n window costs0 i j costs"
    and same: "\<And>a b. in_band m window a b \<Longrightarrow>
                (a < i \<or> (a = i \<and> b < j)) = (a < i' \<or> (a = i' \<and> b < j'))"
  shows "filled_before x1 x2 w m n window costs0 i' j' costs"
proof -
  have "cell costs m a b =
          (if in_band m window a b \<and> (a < i' \<or> (a = i' \<and> b < j'))
           then recurrence x1 x2 w m n costs a b else cell costs0 m a b)"
    if r: "0 \<le> a \<and> a < m \<and> 0 \<le> b \<and> b < m" for a b
  proof -
    have old: "cell costs m a b =
          (if in_band m window a b \<and> (a < i \<or> (a = i \<and> b < j))
           then recurrence x1 x2 w m n costs a b else cell costs0 m a b)"
      using inv r unfolding filled_before_def by blast
    show ?thesis
    proof (cases "in_band m window a b")
      case True
      then show ?thesis using old same[OF True] by simp
    next
      case False
      then show ?thesis using old by simp
    qed
  qed
  moreover have "length costs = length costs0"
    using inv unfolding filled_before_def by blast
  ultimately show ?thesis unfolding filled_before_def by blast
qed

lemma inner_loop_fills:
  assumes "extents_ok x1 x2 w m n costs0" "1 \<le> i" "i < m" "band_lo window i \<le> j"
    and "filled_before x1 x2 w m n window costs0 i j costs"
  shows "\<exists>costs'. inner_loop x1 x2 w m n window i j costs = Inr costs' \<and>
           filled_before x1 x2 w m n window costs0 (i + 1) 0 costs'"
  using assms
proof (induction x1 x2 w m n window i j costs rule: inner_loop.induct)
  case (1 x1 x2 w m n window i j costs)
  show ?case
  proof (cases "j < band_hi m window i")
    case True
    let ?c = "costs[nat (i * m + j) := recurrence x1 x2 w m n costs i j]"
    have band: "in_band m window i j" using "1.prems"(2,3,4) True by (simp add: in_band_def)
    have "length costs = length costs0"
      using "1.prems"(5) unfolding filled_before_def by blast
    then have ext: "extents_ok x1 x2 w m n costs"
      using "1.prems"(1) by (simp add: extents_ok_def)
    have body: "loop_body x1 x2 w m n i j costs = Inr ?c"
      using ext in_band_range[OF band] by (intro loop_body_ok) auto
    have inv: "filled_before x1 x2 w m n window costs0 i (j + 1) ?c"
      using "1.prems" True by (intro filled_before_step) 
    have lo: "band_lo window i \<le> j + 1" using "1.prems"(4) by simp
    have "\<exists>costs'. inner_loop x1 x2 w m n window i (j + 1) ?c = Inr costs' \<and>
           filled_before x1 x2 w m n window costs0 (i + 1) 0 costs'"
      by (rule "1.IH"[OF True body "1.prems"(1,2,3) lo inv])
    then show ?thesis using True body by (subst inner_loop.simps) simp
  next
    case False
    have "filled_before x1 x2 w m n window costs0 (i + 1) 0 costs"
    proof (rule filled_before_shift[OF "1.prems"(5)])
      fix a b assume ab: "in_band m window a b"
      have "1 \<le> b" using in_band_range[OF ab] by simp
      moreover have "a = i \<longrightarrow> b < j" using ab False unfolding in_band_def by auto
      ultimately show "(a < i \<or> (a = i \<and> b < j)) = (a < i + 1 \<or> (a = i + 1 \<and> b < 0))"
        by auto
    qed
    then show ?thesis using False by (subst inner_loop.simps) simp
  qed
qed

lemma outer_loop_fills:
  assumes "extents_ok x1 x2 w m n costs0" "1 \<le> i"
    and "filled_before x1 x2 w m n window costs0 i 0 costs"
  shows "\<exists>costs'. outer_loop x1 x2 w m n window i costs = Inr costs' \<and>
           filled_before x1 x2 w m n window costs0 m 0 costs'"
  using assms
proof (induction x1 x2 w m n window i costs rule: outer_loop.induct)
  case (1 x1 x2 w m n window i costs)
  show ?case
  proof (cases "i < m")
    case True
    have start: "filled_before x1 x2 w m n window costs0 i (band_lo window i) costs"
    proof (rule filled_before_shift[OF "1.prems"(3)])
      fix a b assume ab: "in_band m window a b"
      have "1 \<le> b" using in_band_range[OF ab] by simp
      moreover have "a = i \<longrightarrow> band_lo window i \<le> b" using ab unfolding in_band_def by auto
      ultimately show "(a < i \<or> (a = i \<and> b < 0)) = (a < i \<or> (a = i \<and> b < band_lo window i))"
        by auto
    qed
    obtain c where c: "inner_loop x1 x2 w m n window i (band_lo window i) costs = Inr c"
      "filled_before x1 x2 w m n window costs0 (i + 1) 0 c"
      using inner_loop_fills[OF "1.prems"(1,2) True order_refl start] by blast
    have i1: "1 \<le> i + 1" using "1.prems"(2) by simp
    have "\<exists>costs'. outer_loop x1 x2 w m n window (i + 1) c = Inr costs' \<and>
           filled_before x1 x2 w m n window costs0 m 0 costs'"
      by (rule "1.IH"[OF True c(1) "1.prems"(1) i1 c(2)])
    then show ?thesis using True c(1) by (subst outer_loop.simps) simp
  next
    case False
    have "filled_before x1 x2 w m n window costs0 m 0 costs"
    proof (rule filled_before_shift[OF "1.prems"(3)])
      fix a b assume ab: "in_band m window a b"
      have "1 \<le> b" "a < m" using in_band_range[OF ab] by simp_all
      then show "(a < i \<or> (a = i \<and> b < 0)) = (a < m \<or> (a = m \<and> b < 0))"
        using False by auto
    qed
    then show ?thesis using False by (subst outer_loop.simps) simp
  qed
qed

lemma kernel_fills:
  assumes "extents_ok x1 x2 w m n costs0"
  shows "\<exists>costs'. weighted_euclidean x1 x2 w m n window costs0 = Inr costs' \<and>
           length costs' = length costs0 \<and>
           (\<forall>a b. 0 \<le> a \<and> a < m \<and> 0 \<le> b \<and> b < m \<longrightarrow>
              cell costs' m a b =
                (if in_band m window a b then recurrence x1 x2 w m n costs' a b
                 else cell costs0 m a b))"
proof -
  have init: "filled_before x1 x2 w m n window costs0 1 0 costs0"
  proof -
    have none: "(in_band m window a b \<and> (a < 1 \<or> (a = 1 \<and> b < 0))) = False" for a b
      using in_band_range[of m window a b] by auto
    show ?thesis unfolding filled_before_def by (simp only: none if_False simp_thms)
  qed
  obtain c where c: "outer_loop x1 x2 w m n window 1 costs0 = Inr c"
    "filled_before x1 x2 w m n window costs0 m 0 c"
    using outer_loop_fills[OF assms order_refl init] by blast
  have all: "(in_band m window a b \<and> (a < m \<or> (a = m \<and> b < 0))) = in_band m window a b" for a b
    using in_band_range[of m window a b] by auto
  have "length c = length costs0 \<and>
           (\<forall>a b. 0 \<le> a \<and> a < m \<and> 0 \<le> b \<and> b < m \<longrightarrow>
              cell c m a b =
                (if in_band m window a b then recurrence x1 x2 w m n c a b
                 else cell costs0 m a b))"
    using c(2) unfolding filled_before_def all .
  then show ?thesis using c(1) unfolding weighted_euclidean_def by blast
qed

lemma band_no_overflow:
  assumes "0 \<le> window" "1 \<le> i" "i < m" "m + window \<le> 2 ^ 31"
  shows "band_lo window i = max 1 (i - window)" "band_hi m window i = min m (i + window)"
  using assms by (simp_all add: band_lo_def band_hi_def i32_def)

section \<open>Wrap-around, empty bands and equal bands\<close>

lemma i32_id: "- (2 ^ 31) \<le> x \<Longrightarrow> x < 2 ^ 31 \<Longrightarrow> i32 x = x"
  by (simp add: i32_def)

lemma i32_range: "- (2 ^ 31) \<le> i32 x" "i32 x < 2 ^ 31"
  by (simp_all add: i32_def)

lemma sq_diff_sum_commute: "sq_diff_sum xi xj = sq_diff_sum xj xi"
proof -
  have "map2 (\<lambda>a b. (a - b) * (a - b)) xi xj = map2 (\<lambda>a b. (a - b) * (a - b)) xj xi"
    for xi xj :: "real list"
  proof (induction xi arbitrary: xj)
    case Nil
    then show ?case by simp
  next
    case (Cons a xi)
    then show ?case by (cases xj) (simp_all add: algebra_simps)
  qed
  then show ?thesis by (simp add: sq_diff_sum_def)
qed

lemma error_unique: "(e::error) = e'"
  by (cases e; cases e') simp

lemma inner_loop_done:
  "band_hi m window i \<le> j \<Longrightarrow> inner_loop x1 x2 w m n window i j costs = Inr costs"
  by (subst inner_loop.simps) simp

lemma outer_loop_empty:
  assumes "\<And>i'. i \<le> i' \<Longrightarrow> i' < m \<Longrightarrow> band_hi m window i' \<le> band_lo window i'"
  shows "outer_loop x1 x2 w m n window i costs = Inr costs"
  using assms
proof (induction x1 x2 w m n window i costs rule: outer_loop.induct)
  case (1 x1 x2 w m n window i costs)
  show ?case
  proof (cases "i < m")
    case True
    have inner: "inner_loop x1 x2 w m n window i (band_lo window i) costs = Inr costs"
      using "1.prems"[of i] True by (intro inner_loop_done) simp
    have "outer_loop x1 x2 w m n window (i + 1) costs = Inr costs"
      using "1.prems" by (intro "1.IH"[OF True inner]) simp
    then show ?thesis using True inner by (subst outer_loop.simps) simp
  next
    case False
    then show ?thesis by (subst outer_loop.simps) simp
  qed
qed

lemma empty_band_nonpositive_window:
  assumes "window \<le> 0" "int32 window" "1 \<le> i" "i < m"
    and "m \<le> 2 ^ 30 + 1 \<or> m - window \<le> 2 ^ 31"
  shows "band_hi m window i \<le> band_lo window i"
proof -
  have w: "- (2 ^ 31) \<le> window" using assms(2) by (simp add: int32_def)
  have m: "m \<le> 2 ^ 31" using assms(1,5) by auto
  have hi: "band_hi m window i \<le> i + window"
    using assms w m by (simp add: band_hi_def i32_id)
  show ?thesis
  proof (cases "i - window < 2 ^ 31")
    case True
    then have "band_lo window i = max 1 (i - window)"
      using assms by (simp add: band_lo_def i32_id)
    then show ?thesis using hi assms(1) by simp
  next
    case False
    then have "m \<le> 2 ^ 30 + 1" using assms by auto
    then have "i + window \<le> 1" using False assms by simp
    moreover have "1 \<le> band_lo window i" by (simp add: band_lo_def)
    ultimately show ?thesis using hi by simp
  qed
qed

lemma inner_loop_cong:
  assumes "band_hi m window i = band_hi m window' i"
  shows "inner_loop x1 x2 w m n window i j costs = inner_loop x1 x2 w m n window' i j costs"
  using assms
proof (induction x1 x2 w m n window i j costs rule: inner_loop.induct)
  case (1 x1 x2 w m n window i j costs)
  show ?case
  proof (cases "j < band_hi m window i")
    case True
    show ?thesis
    proof (cases "loop_body x1 x2 w m n i j costs")
      case (Inl e)
      then show ?thesis
        using True "1.prems"
        by (simp add: inner_loop.simps[of x1 x2 w m n window i j]
            inner_loop.simps[of x1 x2 w m n window' i j])
    next
      case (Inr c)
      have "inner_loop x1 x2 w m n window i (j + 1) c
            = inner_loop x1 x2 w m n window' i (j + 1) c"
        by (rule "1.IH"[OF True Inr "1.prems"])
      then show ?thesis
        using True "1.prems" Inr
        by (simp add: inner_loop.simps[of x1 x2 w m n window i j]
            inner_loop.simps[of x1 x2 w m n window' i j])
    qed
  next
    case False
    then show ?thesis
      using "1.prems"
      by (simp add: inner_loop.simps[of x1 x2 w m n window i j]
          inner_loop.simps[of x1 x2 w m n window' i j])
  qed
qed

lemma outer_loop_cong:
  assumes "\<And>i'. i \<le> i' \<Longrightarrow> i' < m \<Longrightarrow>
             band_lo window i' = band_lo window' i' \<and> band_hi m window i' = band_hi m window' i'"
  shows "outer_loop x1 x2 w m n window i costs = outer_loop x1 x2 w m n window' i costs"
  using assms
proof (induction x1 x2 w m n window i costs rule: outer_loop.induct)
  case (1 x1 x2 w m n window i costs)
  show ?case
  proof (cases "i < m")
    case True
    have b: "band_lo window i = band_lo window' i" "band_hi m window i = band_hi m window' i"
      using "1.prems"[of i] True by simp_all
    have inner: "inner_loop x1 x2 w m n window i (band_lo window i) costs
                 = inner_loop x1 x2 w m n window' i (band_lo window' i) costs"
      using inner_loop_cong[OF b(2)] b(1) by simp
    show ?thesis
    proof (cases "inner_loop x1 x2 w m n window i (band_lo window i) costs")
      case (Inl e)
      then have "inner_loop x1 x2 w m n window' i (band_lo window' i) costs = Inl e"
        using inner by simp
      then show ?thesis
        using True Inl
        by (simp add: outer_loop.simps[of x1 x2 w m n window i]
            outer_loop.simps[of x1 x2 w m n window' i])
    next
      case (Inr c)
      have Inr': "inner_loop x1 x2 w m n window' i (band_lo window' i) costs = Inr c"
        using inner Inr by simp
      have l: "outer_loop x1 x2 w m n window i costs = outer_loop x1 x2 w m n window (i + 1) c"
        using True Inr by (simp add: outer_loop.simps[of x1 x2 w m n window i])
      have r: "outer_loop x1 x2 w m n window' i costs = outer_loop x1 x2 w m n window' (i + 1) c"
        using True Inr' by (simp add: outer_loop.simps[of x1 x2 w m n window' i])
      have "outer_loop x1 x2 w m n window (i + 1) c = outer_loop x1 x2 w m n window' (i + 1) c"
        using "1.prems" by (intro "1.IH"[OF True Inr]) simp
      then show ?thesis using l r by simp
    qed
  next
    case False
    then show ?thesis
      by (simp add: outer_loop.simps[of x1 x2 w m n window i]
          outer_loop.simps[of x1 x2 w m n window' i])
  qed
qed

lemma full_band:
  assumes "m \<le> window" "m + window \<le> 2 ^ 31" "1 \<le> i" "i < m"
  shows "band_lo window i = 1" "band_hi m window i = m"
  using assms by (simp_all add: band_lo_def band_hi_def i32_id)

lemma band_within_diagonal:
  assumes "0 \<le> window" "m \<le> 2 ^ 31" "in_band m window a b"
  shows "1 \<le> a \<and> 1 \<le> b \<and> a - window \<le> b \<and> b < a + window"
proof -
  have r: "1 \<le> a" "a < m" "1 \<le> b" "b < m"
    and lo: "band_lo window a \<le> b" and hi: "b < band_hi m window a"
    using in_band_range[OF assms(3)] assms(3) by (simp_all add: in_band_def)
  have "a - window \<le> i32 (a - window)"
  proof (cases "- (2 ^ 31) \<le> a - window")
    case True
    then show ?thesis using assms r by (simp add: i32_id)
  next
    case False
    then show ?thesis using i32_range(1)[of "a - window"] by simp
  qed
  then have "a - window \<le> b" using lo by (simp add: band_lo_def)
  moreover have "b < a + window"
  proof (cases "a + window < 2 ^ 31")
    case True
    then have "i32 (a + window) = a + window" using assms r by (simp add: i32_id)
    then show ?thesis using hi by (simp add: band_hi_def)
  next
    case False
    then show ?thesis using r assms by simp
  qed
  ultimately show ?thesis using r by simp
qed

section \<open>Dependency chains\<close>




section \<open>The parametric kernel\<close>

lemma row_of_ok:
  assumes "0 \<le> i" "i < m" "0 \<le> n" "length buf = nat (m * n)"
  shows "row_of buf m n i = Inr (take (nat n) (drop (nat (i * n)) buf))"
    and "nat (i * n) + nat n \<le> length buf"
proof -
  have "i * n + n = (i + 1) * n" by (simp add: algebra_simps)
  also have "\<dots> \<le> m * n" using assms by (intro mult_right_mono) auto
  finally have le: "i * n + n \<le> m * n" .
  have nn: "0 \<le> i * n" using assms by simp
  show "row_of buf m n i = Inr (take (nat n) (drop (nat (i * n)) buf))"
    using assms le by (simp add: row_of_def nat_le_eq_zle)
  show "nat (i * n) + nat n \<le> length buf"
    using assms le nn by (simp add: nat_add_distrib[symmetric] nat_le_eq_zle)
qed

lemma rows_pointwise:
  assumes "a + n \<le> length xs" "b + n \<le> length ys"
  shows "map2 f (take n (drop a xs)) (take n (drop b ys))
         = map (\<lambda>k. f (xs ! (a + k)) (ys ! (b + k))) [0..<n]"
  using assms by (intro nth_equalityI) simp_all

lemma local_cost_on_ok:
  assumes "shape_ok x1 x2 w m n costs" "0 \<le> i" "i < m" "0 \<le> j" "j < m"
  shows "local_cost_on ar x1 x2 w m n i j = Inr (spec_local_cost_on ar x1 x2 w n i j)"
proof -
  have e: "0 \<le> n" "length x1 = nat (m * n)" "length x2 = nat (m * n)" "length w = nat m"
    using assms(1) by (simp_all add: shape_ok_def)
  note r1 = row_of_ok[OF assms(2,3) e(1) e(2)]
  note r2 = row_of_ok[OF assms(4,5) e(1) e(3)]
  have wi: "elem w m 1 i 0 = Inr (w ! nat i)" using assms e by (simp add: elem_def)
  have wj: "elem w m 1 j 0 = Inr (w ! nat j)" using assms e by (simp add: elem_def)
  show ?thesis
    by (simp add: local_cost_on_def bind_err_def r1(1) r2(1) wi wj sq_diffs_def
        rows_pointwise[OF r1(2) r2(2)] spec_local_cost_on_def)
qed

lemma loop_body_on_ok:
  assumes "shape_ok x1 x2 w m n costs" "1 \<le> i" "i < m" "1 \<le> j" "j < m"
  shows "loop_body_on ar x1 x2 w m n i j costs
         = Inr (costs[nat (i * m + j) := recurrence_on ar x1 x2 w m n costs i j])"
proof -
  have len: "length costs = nat (m * m)" using assms(1) by (simp add: shape_ok_def)
  have lc: "local_cost_on ar x1 x2 w m n i j = Inr (spec_local_cost_on ar x1 x2 w n i j)"
    using assms by (intro local_cost_on_ok) auto
  have b: "a * m + b < m * m" if "0 \<le> a" "a < m" "0 \<le> b" "b < m" for a b
    using that by (rule flat_index_less)
  have c1: "elem costs m m i (j - 1) = Inr (entry costs m i (j - 1))"
    using assms b[of i "j - 1"] len by (simp add: elem_def entry_def)
  have c2: "elem costs m m (i - 1) j = Inr (entry costs m (i - 1) j)"
    using assms b[of "i - 1" j] len by (simp add: elem_def entry_def)
  have c3: "elem costs m m (i - 1) (j - 1) = Inr (entry costs m (i - 1) (j - 1))"
    using assms b[of "i - 1" "j - 1"] len by (simp add: elem_def entry_def)
  have u: "elem_upd costs m m i j v = Inr (costs[nat (i * m + j) := v])" for v
    using assms b[of i j] len by (simp add: elem_upd_def)
  show ?thesis
    by (simp add: loop_body_on_def bind_err_def lc c1 c2 c3 u recurrence_on_def)
qed

lemma entry_update:
  assumes "length costs = nat (m * m)"
    and "0 \<le> a" "a < m" "0 \<le> b" "b < m" "0 \<le> i" "i < m" "0 \<le> j" "j < m"
  shows "entry (costs[nat (i * m + j) := v]) m a b = (if a = i \<and> b = j then v else entry costs m a b)"
proof -
  have lt: "i * m + j < m * m" using assms by (intro flat_index_less) auto
  have nn: "0 \<le> i * m + j" "0 \<le> a * m + b" using assms by simp_all
  have "nat (i * m + j) = nat (a * m + b) \<longleftrightarrow> i * m + j = a * m + b"
    using nn by (simp add: eq_nat_nat_iff)
  also have "\<dots> \<longleftrightarrow> i = a \<and> j = b"
    using flat_index_inj[of j m b i a] assms(4,5,8,9) by blast
  finally have "nat (i * m + j) = nat (a * m + b) \<longleftrightarrow> i = a \<and> j = b" .
  then show ?thesis
    using assms(1) lt nn by (auto simp: entry_def nth_list_update)
qed

lemma recurrence_on_update:
  assumes "length costs = nat (m * m)"
    and "1 \<le> a" "a < m" "1 \<le> b" "b < m" "1 \<le> i" "i < m" "1 \<le> j" "j < m"
    and "a < i \<or> (a = i \<and> b \<le> j)"
  shows "recurrence_on ar x1 x2 w m n (costs[nat (i * m + j) := v]) a b = recurrence_on ar x1 x2 w m n costs a b"
proof -
  have "entry (costs[nat (i * m + j) := v]) m a (b - 1) = entry costs m a (b - 1)"
    using assms by (subst entry_update) auto
  moreover have "entry (costs[nat (i * m + j) := v]) m (a - 1) b = entry costs m (a - 1) b"
    using assms by (subst entry_update) auto
  moreover have "entry (costs[nat (i * m + j) := v]) m (a - 1) (b - 1) = entry costs m (a - 1) (b - 1)"
    using assms by (subst entry_update) auto
  ultimately show ?thesis by (simp add: recurrence_on_def)
qed

lemma filled_before_on_step:
  assumes ext: "shape_ok x1 x2 w m n init"
    and i: "1 \<le> i" "i < m" and j: "band_lo window i \<le> j" "j < band_hi m window i"
    and inv: "filled_before_on ar x1 x2 w m n window init i j costs"
  shows "filled_before_on ar x1 x2 w m n window init i (j + 1)
           (costs[nat (i * m + j) := recurrence_on ar x1 x2 w m n costs i j])"
proof -
  let ?v = "recurrence_on ar x1 x2 w m n costs i j"
  let ?c = "costs[nat (i * m + j) := ?v]"
  have len: "length costs = nat (m * m)"
    using ext inv by (simp add: shape_ok_def filled_before_on_def)
  have band: "in_band m window i j" using i j by (simp add: in_band_def)
  have rj: "1 \<le> j" "j < m" using in_band_range[OF band] by simp_all
  have "entry ?c m a b =
          (if in_band m window a b \<and> (a < i \<or> (a = i \<and> b < j + 1))
           then recurrence_on ar x1 x2 w m n ?c a b else entry init m a b)"
    if r: "0 \<le> a" "a < m" "0 \<le> b" "b < m" for a b
  proof (cases "a = i \<and> b = j")
    case True
    have "recurrence_on ar x1 x2 w m n ?c i j = ?v"
      using len i rj by (intro recurrence_on_update) auto
    moreover have "entry ?c m i j = ?v"
      using len i rj by (subst entry_update) auto
    ultimately show ?thesis using True band by simp
  next
    case False
    have old: "entry costs m a b =
          (if in_band m window a b \<and> (a < i \<or> (a = i \<and> b < j))
           then recurrence_on ar x1 x2 w m n costs a b else entry init m a b)"
      using inv r by (simp add: filled_before_on_def)
    have same: "entry ?c m a b = entry costs m a b"
      using len i rj r False by (subst entry_update) auto
    show ?thesis
    proof (cases "in_band m window a b \<and> (a < i \<or> (a = i \<and> b < j))")
      case True
      then have ra: "1 \<le> a" "1 \<le> b" using in_band_range[of m window a b] by simp_all
      have "recurrence_on ar x1 x2 w m n ?c a b = recurrence_on ar x1 x2 w m n costs a b"
        using len ra r i rj True by (intro recurrence_on_update) auto
      then show ?thesis using True same old by auto
    next
      case F2: False
      then have "\<not> (in_band m window a b \<and> (a < i \<or> (a = i \<and> b < j + 1)))"
        using False by auto
      then show ?thesis using F2 same old by auto
    qed
  qed
  then show ?thesis using inv by (simp add: filled_before_on_def)
qed

lemma filled_before_on_shift:
  assumes inv: "filled_before_on ar x1 x2 w m n window init i j costs"
    and same: "\<And>a b. in_band m window a b \<Longrightarrow>
                (a < i \<or> (a = i \<and> b < j)) = (a < i' \<or> (a = i' \<and> b < j'))"
  shows "filled_before_on ar x1 x2 w m n window init i' j' costs"
proof -
  have "entry costs m a b =
          (if in_band m window a b \<and> (a < i' \<or> (a = i' \<and> b < j'))
           then recurrence_on ar x1 x2 w m n costs a b else entry init m a b)"
    if r: "0 \<le> a \<and> a < m \<and> 0 \<le> b \<and> b < m" for a b
  proof -
    have old: "entry costs m a b =
          (if in_band m window a b \<and> (a < i \<or> (a = i \<and> b < j))
           then recurrence_on ar x1 x2 w m n costs a b else entry init m a b)"
      using inv r unfolding filled_before_on_def by blast
    show ?thesis
    proof (cases "in_band m window a b")
      case True
      then show ?thesis using old same[OF True] by simp
    next
      case False
      then show ?thesis using old by simp
    qed
  qed
  moreover have "length costs = length init"
    using inv unfolding filled_before_on_def by blast
  ultimately show ?thesis unfolding filled_before_on_def by blast
qed

lemma inner_loop_on_fills:
  assumes "shape_ok x1 x2 w m n init" "1 \<le> i" "i < m" "band_lo window i \<le> j"
    and "filled_before_on ar x1 x2 w m n window init i j costs"
  shows "\<exists>costs'. inner_loop_on ar x1 x2 w m n window i j costs = Inr costs' \<and>
           filled_before_on ar x1 x2 w m n window init (i + 1) 0 costs'"
  using assms
proof (induction ar x1 x2 w m n window i j costs rule: inner_loop_on.induct)
  case (1 ar x1 x2 w m n window i j costs)
  show ?case
  proof (cases "j < band_hi m window i")
    case True
    let ?c = "costs[nat (i * m + j) := recurrence_on ar x1 x2 w m n costs i j]"
    have band: "in_band m window i j" using "1.prems"(2,3,4) True by (simp add: in_band_def)
    have "length costs = length init"
      using "1.prems"(5) unfolding filled_before_on_def by blast
    then have ext: "shape_ok x1 x2 w m n costs"
      using "1.prems"(1) by (simp add: shape_ok_def)
    have body: "loop_body_on ar x1 x2 w m n i j costs = Inr ?c"
      using ext in_band_range[OF band] by (intro loop_body_on_ok) auto
    have inv: "filled_before_on ar x1 x2 w m n window init i (j + 1) ?c"
      using "1.prems" True by (intro filled_before_on_step) 
    have lo: "band_lo window i \<le> j + 1" using "1.prems"(4) by simp
    have "\<exists>costs'. inner_loop_on ar x1 x2 w m n window i (j + 1) ?c = Inr costs' \<and>
           filled_before_on ar x1 x2 w m n window init (i + 1) 0 costs'"
      by (rule "1.IH"[OF True body "1.prems"(1,2,3) lo inv])
    then show ?thesis using True body by (subst inner_loop_on.simps) simp
  next
    case False
    have "filled_before_on ar x1 x2 w m n window init (i + 1) 0 costs"
    proof (rule filled_before_on_shift[OF "1.prems"(5)])
      fix a b assume ab: "in_band m window a b"
      have "1 \<le> b" using in_band_range[OF ab] by simp
      moreover have "a = i \<longrightarrow> b < j" using ab False unfolding in_band_def by auto
      ultimately show "(a < i \<or> (a = i \<and> b < j)) = (a < i + 1 \<or> (a = i + 1 \<and> b < 0))"
        by auto
    qed
    then show ?thesis using False by (subst inner_loop_on.simps) simp
  qed
qed

lemma outer_loop_on_fills:
  assumes "shape_ok x1 x2 w m n init" "1 \<le> i"
    and "filled_before_on ar x1 x2 w m n window init i 0 costs"
  shows "\<exists>costs'. outer_loop_on ar x1 x2 w m n window i costs = Inr costs' \<and>
           filled_before_on ar x1 x2 w m n window init m 0 costs'"
  using assms
proof (induction ar x1 x2 w m n window i costs rule: outer_loop_on.induct)
  case (1 ar x1 x2 w m n window i costs)
  show ?case
  proof (cases "i < m")
    case True
    have start: "filled_before_on ar x1 x2 w m n window init i (band_lo window i) costs"
    proof (rule filled_before_on_shift[OF "1.prems"(3)])
      fix a b assume ab: "in_band m window a b"
      have "1 \<le> b" using in_band_range[OF ab] by simp
      moreover have "a = i \<longrightarrow> band_lo window i \<le> b" using ab unfolding in_band_def by auto
      ultimately show "(a < i \<or> (a = i \<and> b < 0)) = (a < i \<or> (a = i \<and> b < band_lo window i))"
        by auto
    qed
    obtain c where c: "inner_loop_on ar x1 x2 w m n window i (band_lo window i) costs = Inr c"
      "filled_before_on ar x1 x2 w m n window init (i + 1) 0 c"
      using inner_loop_on_fills[OF "1.prems"(1,2) True order_refl start] by blast
    have i1: "1 \<le> i + 1" using "1.prems"(2) by simp
    have "\<exists>costs'. outer_loop_on ar x1 x2 w m n window (i + 1) c = Inr costs' \<and>
           filled_before_on ar x1 x2 w m n window init m 0 costs'"
      by (rule "1.IH"[OF True c(1) "1.prems"(1) i1 c(2)])
    then show ?thesis using True c(1) by (subst outer_loop_on.simps) simp
  next
    case False
    have "filled_before_on ar x1 x2 w m n window init m 0 costs"
    proof (rule filled_before_on_shift[OF "1.prems"(3)])
      fix a b assume ab: "in_band m window a b"
      have "1 \<le> b" "a < m" using in_band_range[OF ab] by simp_all
      then show "(a < i \<or> (a = i \<and> b < 0)) = (a < m \<or> (a = m \<and> b < 0))"
        using False by auto
    qed
    then show ?thesis using False by (subst outer_loop_on.simps) simp
  qed
qed

lemma kernel_on_fills:
  assumes "shape_ok x1 x2 w m n init"
  shows "\<exists>costs'. weighted_euclidean_on ar x1 x2 w m n window init = Inr costs' \<and>
           length costs' = length init \<and>
           (\<forall>a b. 0 \<le> a \<and> a < m \<and> 0 \<le> b \<and> b < m \<longrightarrow>
              entry costs' m a b =
                (if in_band m window a b then recurrence_on ar x1 x2 w m n costs' a b
                 else entry init m a b))"
proof -
  have init: "filled_before_on ar x1 x2 w m n window init 1 0 init"
  proof -
    have none: "(in_band m window a b \<and> (a < 1 \<or> (a = 1 \<and> b < 0))) = False" for a b
      using in_band_range[of m window a b] by auto
    show ?thesis unfolding filled_before_on_def by (simp only: none if_False simp_thms)
  qed
  obtain c where c: "outer_loop_on ar x1 x2 w m n window 1 init = Inr c"
    "filled_before_on ar x1 x2 w m n window init m 0 c"
    using outer_loop_on_fills[OF assms order_refl init] by blast
  have all: "(in_band m window a b \<and> (a < m \<or> (a = m \<and> b < 0))) = in_band m window a b" for a b
    using in_band_range[of m window a b] by auto
  have "length c = length init \<and>
           (\<forall>a b. 0 \<le> a \<and> a < m \<and> 0 \<le> b \<and> b < m \<longrightarrow>
              entry c m a b =
                (if in_band m window a b then recurrence_on ar x1 x2 w m n c a b
                 else entry init m a b))"
    using c(2) unfolding filled_before_on_def all .
  then show ?thesis using c(1) unfolding weighted_euclidean_on_def by blast
qed

lemma spec_band_in_band:
  assumes "0 \<le> window" "m + window \<le> 2 ^ 31"
  shows "spec_band m window a b = in_band m window a b"
proof (cases "1 \<le> a \<and> a < m")
  case True
  then show ?thesis
    using band_no_overflow[of window a m] assms by (simp add: spec_band_def in_band_def)
next
  case False
  then show ?thesis by (auto simp: spec_band_def in_band_def)
qed

text \<open>At exact real arithmetic the parametric kernel is the real-valued kernel.\<close>

lemma local_cost_real_arith:
  "local_cost x1 x2 w m n i j = local_cost_on real_arith x1 x2 w m n i j"
  by (simp add: local_cost_def local_cost_on_def row_def row_of_def coeff_def elem_def
      sq_diff_sum_def sq_diffs_def real_arith_def)

lemma loop_body_real_arith:
  "loop_body x1 x2 w m n i j costs = loop_body_on real_arith x1 x2 w m n i j costs"
proof -
  have "a_min real_arith a b = min a b" for a b :: real
    by (simp add: a_min_def real_arith_def min_def)
  moreover have "a_add real_arith a b = a + b" for a b :: real
    by (simp add: real_arith_def)
  ultimately show ?thesis
    by (simp add: loop_body_def loop_body_on_def local_cost_real_arith coeff_def elem_def
        coeff_upd_def elem_upd_def)
qed

lemma inner_loop_real_arith:
  "inner_loop x1 x2 w m n window i j costs
   = inner_loop_on real_arith x1 x2 w m n window i j costs"
proof (induction x1 x2 w m n window i j costs rule: inner_loop.induct)
  case (1 x1 x2 w m n window i j costs)
  show ?case
  proof (cases "j < band_hi m window i")
    case True
    show ?thesis
    proof (cases "loop_body x1 x2 w m n i j costs")
      case (Inl e)
      then show ?thesis
        using True loop_body_real_arith[of x1 x2 w m n i j costs]
        by (simp add: inner_loop.simps[of x1 x2 w m n window i j]
            inner_loop_on.simps[of real_arith x1 x2 w m n window i j])
    next
      case (Inr c)
      have b: "loop_body_on real_arith x1 x2 w m n i j costs = Inr c"
        using Inr loop_body_real_arith[of x1 x2 w m n i j costs] by simp
      have l: "inner_loop x1 x2 w m n window i j costs
               = inner_loop x1 x2 w m n window i (j + 1) c"
        using True Inr by (simp add: inner_loop.simps[of x1 x2 w m n window i j])
      have r: "inner_loop_on real_arith x1 x2 w m n window i j costs
               = inner_loop_on real_arith x1 x2 w m n window i (j + 1) c"
        using True b by (simp add: inner_loop_on.simps[of real_arith x1 x2 w m n window i j])
      show ?thesis using l r "1.IH"[OF True Inr] by simp
    qed
  next
    case False
    then show ?thesis
      by (simp add: inner_loop.simps[of x1 x2 w m n window i j]
          inner_loop_on.simps[of real_arith x1 x2 w m n window i j])
  qed
qed

lemma outer_loop_real_arith:
  "outer_loop x1 x2 w m n window i costs
   = outer_loop_on real_arith x1 x2 w m n window i costs"
proof (induction x1 x2 w m n window i costs rule: outer_loop.induct)
  case (1 x1 x2 w m n window i costs)
  show ?case
  proof (cases "i < m")
    case True
    show ?thesis
    proof (cases "inner_loop x1 x2 w m n window i (band_lo window i) costs")
      case (Inl e)
      then show ?thesis
        using True inner_loop_real_arith[of x1 x2 w m n window i "band_lo window i" costs]
        by (simp add: outer_loop.simps[of x1 x2 w m n window i]
            outer_loop_on.simps[of real_arith x1 x2 w m n window i])
    next
      case (Inr c)
      have b: "inner_loop_on real_arith x1 x2 w m n window i (band_lo window i) costs = Inr c"
        using Inr inner_loop_real_arith[of x1 x2 w m n window i "band_lo window i" costs]
        by simp
      have l: "outer_loop x1 x2 w m n window i costs = outer_loop x1 x2 w m n window (i + 1) c"
        using True Inr by (simp add: outer_loop.simps[of x1 x2 w m n window i])
      have r: "outer_loop_on real_arith x1 x2 w m n window i costs
               = outer_loop_on real_arith x1 x2 w m n window (i + 1) c"
        using True b by (simp add: outer_loop_on.simps[of real_arith x1 x2 w m n window i])
      show ?thesis using l r "1.IH"[OF True Inr] by simp
    qed
  next
    case False
    then show ?thesis
      by (simp add: outer_loop.simps[of x1 x2 w m n window i]
          outer_loop_on.simps[of real_arith x1 x2 w m n window i])
  qed
qed

lemma weighted_euclidean_real_arith:
  "weighted_euclidean x1 x2 w m n window costs_out
   = weighted_euclidean_on real_arith x1 x2 w m n window costs_out"
  by (simp add: weighted_euclidean_def weighted_euclidean_on_def outer_loop_real_arith)

section \<open>Binary32 arithmetic: rounding and signs\<close>

lemma round32_zero [simp]: "round32 0 = Fin 0"
  by (simp add: round32_def)

lemma ulp_exp_one: "ulp_exp 1 = - 23" "ulp_exp (- 1) = - 23"
  by (simp_all add: ulp_exp_def)

lemma rne_of_int [simp]: "rne (of_int k) = k"
  by (simp add: rne_def)

lemma round32_one [simp]: "round32 1 = Fin 1"
proof -
  have "(1::real) / 2 powi (- 23) = of_int (2 ^ 23)"
    by (simp add: power_int_minus field_simps)
  then have "rne (1 / 2 powi (- 23)) = 2 ^ 23" by (simp only: rne_of_int)
  then show ?thesis
    by (simp add: round32_def ulp_exp_one power_int_minus)
qed

lemma round32_minus_one [simp]: "round32 (- 1) = Fin (- 1)"
proof -
  have "(- 1::real) / 2 powi (- 23) = of_int (- (2 ^ 23))"
    by (simp add: power_int_minus field_simps)
  then have "rne (- 1 / 2 powi (- 23)) = - (2 ^ 23)" by (simp only: rne_of_int)
  then show ?thesis
    by (simp add: round32_def ulp_exp_one power_int_minus)
qed

lemma round32_overflow: "round32 (2 ^ 128) = PInf"
proof -
  have "log 2 (2 ^ 128 :: real) = 128"
    using log_pow_cancel[of 2 128] by simp
  moreover have "\<bar>2 ^ 128 :: real\<bar> = 2 ^ 128" by simp
  ultimately have "\<lfloor>log 2 \<bar>2 ^ 128 :: real\<bar>\<rfloor> = 128" by (simp only: floor_numeral of_nat_numeral)
  then have e: "ulp_exp (2 ^ 128) = 105" unfolding ulp_exp_def by simp
  have "(2 ^ 128 :: real) / 2 powi 105 = of_int (2 ^ 23)"
    by (simp add: power_int_nonneg_exp)
  then have r: "rne (2 ^ 128 / 2 powi 105) = 2 ^ 23" by (simp only: rne_of_int)
  show ?thesis
    unfolding round32_def e r by (simp add: power_int_nonneg_exp)
qed

text \<open>Exactly representable numbers are not changed; a tie goes to the even
  significand; \<open>1 + 10^9\<close> is rounded to \<open>10^9\<close>.\<close>

lemma ulp_exp_le:
  assumes "x \<noteq> 0" "\<bar>x\<bar> < 2 ^ 24 * 2 powi e" "- 149 \<le> e"
  shows "ulp_exp x \<le> e"
proof -
  have pos: "0 < \<bar>x\<bar>" using assms(1) by simp
  have "(2::real) powr (of_int (e + 24)) = 2 powi (e + 24)"
    by (rule powr_real_of_int') simp_all
  also have "\<dots> = (2::real) powi e * 2 powi 24" by (simp add: power_int_add)
  also have "\<dots> = 2 ^ 24 * 2 powi e" by (simp add: power_int_nonneg_exp)
  finally have "2 ^ 24 * (2::real) powi e = 2 powr (of_int (e + 24))" by simp
  then have "\<bar>x\<bar> < 2 powr (of_int (e + 24))" using assms(2) by simp
  then have "log 2 \<bar>x\<bar> < of_int (e + 24)"
    using pos by (simp add: log_less_iff)
  then have "\<lfloor>log 2 \<bar>x\<bar>\<rfloor> < e + 24" by (simp add: floor_less_iff)
  then show ?thesis using assms(3) by (simp add: ulp_exp_def)
qed

lemma round32_exact:
  assumes "x = of_int k * 2 powi e" "\<bar>k\<bar> < 2 ^ 24" "- 149 \<le> e" "\<bar>x\<bar> < 2 ^ 128"
  shows "round32 x = Fin x"
proof (cases "x = 0")
  case True
  then show ?thesis by (simp add: round32_def)
next
  case False
  have "\<bar>x\<bar> = of_int \<bar>k\<bar> * 2 powi e" using assms(1) by (simp add: abs_mult)
  also have "\<dots> < 2 ^ 24 * 2 powi e"
  proof -
    have "(of_int \<bar>k\<bar> :: real) < 2 ^ 24" using assms(2) by (metis of_int_less_numeral_power_cancel_iff)
    then show ?thesis by (simp add: mult_strict_right_mono)
  qed
  finally have le: "ulp_exp x \<le> e" using False assms(3) by (intro ulp_exp_le)
  define d where "d = nat (e - ulp_exp x)"
  have e: "e = ulp_exp x + int d" using le by (simp add: d_def)
  define p :: real where "p = 2 powi ulp_exp x"
  have p: "p \<noteq> 0" by (simp add: p_def)
  have "(2::real) powi e = p * 2 ^ d"
    unfolding p_def by (subst e) (simp add: power_int_add)
  then have "x = (of_int k * 2 ^ d) * p" using assms(1) by simp
  then have "x / p = of_int k * 2 ^ d" using p by simp
  then have q: "x / 2 powi ulp_exp x = of_int (k * 2 ^ d)"
    by (simp add: p_def)
  have r: "rne (x / 2 powi ulp_exp x) = k * 2 ^ d"
    unfolding q by (rule rne_of_int)
  have y: "of_int (rne (x / 2 powi ulp_exp x)) * 2 powi ulp_exp x = x"
    unfolding r using q by (simp add: field_simps)
  show ?thesis
    using False assms(4) by (simp add: round32_def Let_def y)
qed

lemma round32_of_int:
  assumes "\<bar>k\<bar> < 2 ^ 24"
  shows "round32 (of_int k) = Fin (of_int k)"
proof -
  have "\<bar>of_int k :: real\<bar> < 2 ^ 24" using assms by (metis of_int_abs of_int_less_numeral_power_cancel_iff)
  then have "\<bar>of_int k :: real\<bar> < 2 ^ 128" by simp
  then show ?thesis using assms by (intro round32_exact[where k = k and e = 0]) simp_all
qed

lemma round32_numeral [simp]:
  "numeral n < (2 ^ 24 :: int) \<Longrightarrow> round32 (numeral n) = Fin (numeral n)"
  using round32_of_int[of "numeral n"] by simp

lemma round32_neg_numeral [simp]:
  "numeral n < (2 ^ 24 :: int) \<Longrightarrow> round32 (- numeral n) = Fin (- numeral n)"
  using round32_of_int[of "- numeral n"] by simp

lemma round32_billion: "round32 1000000000 = Fin 1000000000"
  by (rule round32_exact[where k = 1953125 and e = 9]) simp_all

lemma round32_two_pow_64: "round32 (2 ^ 64) = Fin (2 ^ 64)"
  by (rule round32_exact[where k = 1 and e = 64]) simp_all

lemma round32_ties_to_even: "round32 16777217 = Fin 16777216"
proof -
  have "\<lfloor>log 2 (16777217::real)\<rfloor> = 24"
    using floor_log_eq_powr_iff[of "16777217::real" 2 24] by simp
  then have e: "ulp_exp 16777217 = 1" by (simp add: ulp_exp_def)
  have r: "rne (16777217 / 2 powi 1) = 8388608"
    by (simp add: rne_def Let_def)
  show ?thesis unfolding round32_def e r by simp
qed

lemma round32_billion_and_one: "round32 1000000001 = Fin 1000000000"
proof -
  have "\<lfloor>log 2 (1000000001::real)\<rfloor> = 29"
    using floor_log_eq_powr_iff[of "1000000001::real" 2 29] by simp
  then have e: "ulp_exp 1000000001 = 6" by (simp add: ulp_exp_def)
  have r: "rne (1000000001 / 2 powi 6) = 15625000"
    by (simp add: rne_def Let_def power_int_nonneg_exp)
  show ?thesis
    unfolding round32_def e r by (simp add: power_int_nonneg_exp)
qed

lemma rne_nonneg: "0 \<le> q \<Longrightarrow> 0 \<le> rne q"
  by (simp add: rne_def Let_def)

lemma round32_nonneg:
  assumes "0 \<le> x"
  shows "round32 x = PInf \<or> (\<exists>y. 0 \<le> y \<and> round32 x = Fin y)"
proof (cases "x = 0")
  case True
  then show ?thesis by (simp add: round32_def)
next
  case False
  let ?e = "ulp_exp x"
  let ?y = "of_int (rne (x / 2 powi ?e)) * (2::real) powi ?e"
  have p: "0 < (2::real) powi ?e" by simp
  have "0 \<le> x / 2 powi ?e" using assms p by simp
  then have "0 \<le> rne (x / 2 powi ?e)" by (rule rne_nonneg)
  then have y: "0 \<le> ?y" using p by simp
  have x: "0 < x" using assms False by simp
  show ?thesis
  proof (cases "2 ^ 128 \<le> \<bar>?y\<bar>")
    case True
    then have "round32 x = PInf" using False x by (simp add: round32_def Let_def)
    then show ?thesis by simp
  next
    case F: False
    then have "round32 x = Fin ?y" using False by (simp add: round32_def Let_def)
    then show ?thesis using y by blast
  qed
qed

lemma not_neg_f32:
  "not_neg f32_arith v \<longleftrightarrow> v = PInf \<or> v = NaN \<or> (\<exists>y. 0 \<le> y \<and> v = Fin y)"
  by (cases v) (auto simp: not_neg_def f32_arith_def)

lemma not_neg_round32: "0 \<le> x \<Longrightarrow> not_neg f32_arith (round32 x)"
  using round32_nonneg[of x] by (auto simp: not_neg_f32)

lemma f_mul_square_not_neg: "not_neg f32_arith (f_mul d d)"
  by (cases d) (simp_all add: not_neg_round32, simp_all add: not_neg_f32)

lemma f_mul_not_neg:
  assumes "not_neg f32_arith u" "not_neg f32_arith v"
  shows "not_neg f32_arith (f_mul u v)"
proof -
  have fin: "not_neg f32_arith (f_mul (Fin a) (Fin b))" if "0 \<le> a" "0 \<le> b" for a b
    using that by (simp add: not_neg_round32)
  show ?thesis
    using assms fin by (cases u; cases v) (auto simp: not_neg_f32)
qed

lemma f_add_not_neg:
  assumes "not_neg f32_arith u" "not_neg f32_arith v"
  shows "not_neg f32_arith (f_add u v)"
proof -
  have fin: "not_neg f32_arith (f_add (Fin a) (Fin b))" if "0 \<le> a" "0 \<le> b" for a b
    using that by (simp add: not_neg_round32)
  show ?thesis
    using assms fin by (cases u; cases v) (auto simp: not_neg_f32)
qed

lemma f_sqrt_not_neg:
  assumes "not_neg f32_arith v"
  shows "not_neg f32_arith (f_sqrt v)"
proof (cases v)
  case (Fin a)
  then have "0 \<le> a" using assms by (simp add: not_neg_f32)
  then show ?thesis using Fin by (simp add: not_neg_round32)
qed (use assms in \<open>simp_all add: not_neg_f32\<close>)

lemma foldl_f_add_not_neg:
  assumes "not_neg f32_arith acc" "\<forall>v\<in>set vs. not_neg f32_arith v"
  shows "not_neg f32_arith (foldl f_add acc vs)"
  using assms by (induction vs arbitrary: acc) (simp_all add: f_add_not_neg)

lemma sign_laws_f32: "sign_laws f32_arith"
proof -
  have z: "not_neg f32_arith (Fin 0)" by (simp add: not_neg_f32)
  have m1: "a_mul f32_arith = f_mul" and a1: "a_add f32_arith = f_add"
    and s1: "a_sqrt f32_arith = f_sqrt" and u1: "a_sum f32_arith = f_sum"
    by (simp_all add: f32_arith_def)
  show ?thesis
    unfolding sign_laws_def m1 a1 s1 u1 f_sum_def
    using f_mul_square_not_neg f_mul_not_neg f_add_not_neg f_sqrt_not_neg
      foldl_f_add_not_neg[OF z]
    by blast
qed

lemma sign_laws_real: "sign_laws real_arith"
  by (auto simp: sign_laws_def not_neg_def real_arith_def sum_list_nonneg not_less)

lemma a_min_cases: "a_min ar a b = a \<or> a_min ar a b = b"
  by (simp add: a_min_def)

lemma spec_local_cost_on_not_neg:
  assumes "sign_laws ar" "not_neg ar (w ! nat i)" "not_neg ar (w ! nat j)"
  shows "not_neg ar (spec_local_cost_on ar x1 x2 w n i j)"
proof -
  have sq: "\<And>d. not_neg ar (a_mul ar d d)"
    and mul: "\<And>a b. not_neg ar a \<Longrightarrow> not_neg ar b \<Longrightarrow> not_neg ar (a_mul ar a b)"
    and rt: "\<And>v. not_neg ar v \<Longrightarrow> not_neg ar (a_sqrt ar v)"
    and sm: "\<And>vs. (\<forall>v\<in>set vs. not_neg ar v) \<Longrightarrow> not_neg ar (a_sum ar vs)"
    using assms(1) unfolding sign_laws_def by blast+
  show ?thesis
    unfolding spec_local_cost_on_def
    by (intro mul rt sm assms(2,3)) (auto intro: sq)
qed

lemma band_cells_not_neg:
  assumes fill: "\<And>a b. 0 \<le> a \<and> a < m \<and> 0 \<le> b \<and> b < m \<Longrightarrow>
              entry c m a b =
                (if spec_band m window a b then recurrence_on ar x1 x2 w m n c a b
                 else entry init m a b)"
    and laws: "sign_laws ar"
    and wpos: "\<And>a. 1 \<le> a \<and> a < m \<Longrightarrow> not_neg ar (w ! nat a)"
    and bpos: "\<And>a b. spec_boundary m window a b \<Longrightarrow> not_neg ar (entry init m a b)"
    and band: "spec_band m window a b"
  shows "not_neg ar (entry c m a b)"
  using band
proof (induction "nat (a + b)" arbitrary: a b rule: less_induct)
  case less
  have r: "1 \<le> a" "a < m" "1 \<le> b" "b < m"
    using less.prems by (auto simp: spec_band_def)
  have add: "\<And>u v. not_neg ar u \<Longrightarrow> not_neg ar v \<Longrightarrow> not_neg ar (a_add ar u v)"
    using laws unfolding sign_laws_def by blast
  have pred: "not_neg ar (entry c m p q)"
    if pq: "0 \<le> p" "p < m" "0 \<le> q" "q < m" "nat (p + q) < nat (a + b)"
      and adj: "(p = a \<and> q + 1 = b) \<or> (p + 1 = a \<and> q = b) \<or> (p + 1 = a \<and> q + 1 = b)"
    for p q
  proof (cases "spec_band m window p q")
    case True
    then show ?thesis using less.hyps[OF pq(5)] by simp
  next
    case False
    have "spec_boundary m window p q"
      using False adj less.prems by (auto simp: spec_boundary_def)
    then have "not_neg ar (entry init m p q)" by (rule bpos)
    then show ?thesis using fill[of p q] pq False by simp
  qed
  have p1: "not_neg ar (entry c m a (b - 1))" using r by (intro pred) auto
  have p2: "not_neg ar (entry c m (a - 1) b)" using r by (intro pred) auto
  have p3: "not_neg ar (entry c m (a - 1) (b - 1))" using r by (intro pred) auto
  have "not_neg ar (a_min ar (entry c m (a - 1) b) (entry c m (a - 1) (b - 1)))"
    using p2 p3 a_min_cases[of ar "entry c m (a - 1) b" "entry c m (a - 1) (b - 1)"] by auto
  then have mn: "not_neg ar (a_min ar (entry c m a (b - 1))
                   (a_min ar (entry c m (a - 1) b) (entry c m (a - 1) (b - 1))))"
    using p1 a_min_cases[of ar "entry c m a (b - 1)"
        "a_min ar (entry c m (a - 1) b) (entry c m (a - 1) (b - 1))"] by auto
  have lc: "not_neg ar (spec_local_cost_on ar x1 x2 w n a b)"
    using r wpos[of a] wpos[of b] by (intro spec_local_cost_on_not_neg laws) auto
  have "not_neg ar (recurrence_on ar x1 x2 w m n c a b)"
    unfolding recurrence_on_def by (intro add lc mn)
  then show ?case using fill[of a b] r less.prems by simp
qed

lemma round32_two_pow_128: "round32 340282366920938463463374607431768211456 = PInf"
proof -
  have "(340282366920938463463374607431768211456::real) = 2 ^ 128" by simp
  then show ?thesis by (simp only: round32_overflow)
qed

lemmas f32_eval =
  weighted_euclidean_on_def outer_loop_on.simps inner_loop_on.simps band_lo_def band_hi_def
  i32_def loop_body_on_def local_cost_on_def bind_err_def row_of_def elem_def elem_upd_def
  sq_diffs_def a_min_def f32_arith_def f_sub_def f_sum_def entry_def round32_two_pow_128

section \<open>The claims\<close>

text \<open>
  C1 (as amended).  For \<open>m \<ge> 1\<close>, \<open>n \<ge> 0\<close>, \<open>window \<ge> 0\<close> with
  \<open>m + window \<le> 2^31\<close>, so that \<open>i + window\<close> does not overflow for any row, and for
  every cell of the band, \<open>i\<close> in \<open>[1, m)\<close> and \<open>j\<close> in
  \<open>[max(1, i - window), min(m, i + window))\<close>, the call succeeds and leaves in
  \<open>C(i, j)\<close> the value \<open>W[i] * W[j] * sqrt (\<Sum>k<n. (X1[i,k] - X2[j,k])\<^sup>2)\<close> plus the
  minimum of \<open>C(i, j-1)\<close>, \<open>C(i-1, j)\<close> and \<open>C(i-1, j-1)\<close>, computed with the kernel's
  own operations, whatever the arithmetic (in binary32, each operation rounded).  Each
  predecessor is taken as the value the call wrote, if it is a cell of the band, evaluated
  earlier in the row-major traversal, and as the caller's value otherwise.
\<close>

theorem band_cell_recurrence:
  assumes "shape_ok x1 x2 w m n costs_out"
    and "0 \<le> window" "m + window \<le> 2 ^ 31"
    and "1 \<le> i" "i < m" "max 1 (i - window) \<le> j" "j < min m (i + window)"
  shows "\<exists>costs'. weighted_euclidean_on ar x1 x2 w m n window costs_out = Inr costs' \<and>
           entry costs' m i j =
             a_add ar (spec_local_cost_on ar x1 x2 w n i j)
               (a_min ar (held m window costs_out costs' i (j - 1))
                 (a_min ar (held m window costs_out costs' (i - 1) j)
                           (held m window costs_out costs' (i - 1) (j - 1))))"
proof -
  obtain c where c: "weighted_euclidean_on ar x1 x2 w m n window costs_out = Inr c"
    and fill: "\<And>a b. 0 \<le> a \<and> a < m \<and> 0 \<le> b \<and> b < m \<Longrightarrow>
              entry c m a b =
                (if in_band m window a b then recurrence_on ar x1 x2 w m n c a b
                 else entry costs_out m a b)"
    using kernel_on_fills[OF assms(1), of ar window] by blast
  note eq = spec_band_in_band[OF assms(2,3)]
  have band: "in_band m window i j"
    using assms(4-7) eq[of i j] by (simp add: spec_band_def)
  have r: "1 \<le> j" "j < m" using in_band_range[OF band] by simp_all
  have pv: "held m window costs_out c a b = entry c m a b"
    if "0 \<le> a \<and> a < m \<and> 0 \<le> b \<and> b < m" for a b
    using fill[OF that] by (simp add: held_def eq)
  have "entry c m i j = recurrence_on ar x1 x2 w m n c i j"
    using fill[of i j] band assms(4,5) r by simp
  moreover have "held m window costs_out c i (j - 1) = entry c m i (j - 1)"
    using assms(4,5) r by (intro pv) simp
  moreover have "held m window costs_out c (i - 1) j = entry c m (i - 1) j"
    using assms(4,5) r by (intro pv) simp
  moreover have "held m window costs_out c (i - 1) (j - 1) = entry c m (i - 1) (j - 1)"
    using assms(4,5) r by (intro pv) simp
  ultimately show ?thesis using c by (simp add: recurrence_on_def)
qed

text \<open>In binary32, with \<open>C(0,0) = 2 * 10^9\<close>, \<open>C(0,1) = 10^9\<close>,
  \<open>C(1,0) = 3 * 10^9\<close> and a local cost of 1, the cell \<open>(1, 1)\<close> receives
  \<open>10^9\<close>: the minimum is \<open>10^9\<close> and the sum \<open>1 + 10^9\<close> is rounded.\<close>

theorem band_cell_recurrence_witness:
  "shape_ok [Fin 0, Fin 0] [Fin 0, Fin 1] [Fin 1, Fin 1] 2 1
     [Fin 2000000000, Fin 1000000000, Fin 3000000000, Fin 5] \<and>
   (0::int) \<le> 1 \<and> (2::int) + 1 \<le> 2 ^ 31 \<and>
   (1::int) \<le> 1 \<and> (1::int) < 2 \<and> max 1 (1 - 1) \<le> (1::int) \<and> (1::int) < min 2 (1 + 1) \<and>
   (\<exists>costs'. weighted_euclidean_on f32_arith [Fin 0, Fin 0] [Fin 0, Fin 1] [Fin 1, Fin 1]
                2 1 1 [Fin 2000000000, Fin 1000000000, Fin 3000000000, Fin 5] = Inr costs' \<and>
      entry costs' 2 1 1 = Fin 1000000000)"
  using band_cell_recurrence[of "[Fin 0, Fin 0]" "[Fin 0, Fin 1]" "[Fin 1, Fin 1]" 2 1
      "[Fin 2000000000, Fin 1000000000, Fin 3000000000, Fin 5]" 1 1 1 f32_arith]
  by (simp add: shape_ok_def spec_local_cost_on_def held_def spec_band_def entry_def
      a_min_def f32_arith_def f_sub_def f_sum_def round32_billion_and_one)

text \<open>Without the bound on \<open>window\<close> the claim fails: at \<open>m = 2\<close>,
  \<open>window = 2^31 - 1\<close> the cell \<open>(1, 1)\<close> is in the claimed range \<open>[1, 2)\<close>, but
  \<open>1 + window\<close> wraps to \<open>- 2^31\<close>, the inner loop does not run and the cell keeps the
  caller's 5 where the claim gives \<open>0 + min(0, 0, 0) = 0\<close>.\<close>

theorem window_wrap_cell_unset_counterexample:
  "(1::int) \<le> 2 \<and> (0::int) \<le> 1 \<and> (0::int) \<le> 2147483647 \<and>
   (1::int) \<le> 1 \<and> (1::int) < 2 \<and>
   max 1 (1 - 2147483647) \<le> (1::int) \<and> (1::int) < min 2 (1 + 2147483647) \<and>
   weighted_euclidean_on f32_arith [Fin 0, Fin 0] [Fin 0, Fin 0] [Fin 1, Fin 1] 2 1 2147483647
       [Fin 0, Fin 0, Fin 0, Fin 5]
     = Inr [Fin 0, Fin 0, Fin 0, Fin 5] \<and>
   entry [Fin 0, Fin 0, Fin 0, Fin 5] 2 1 1 = Fin 5 \<and>
   a_add f32_arith (spec_local_cost_on f32_arith [Fin 0, Fin 0] [Fin 0, Fin 0] [Fin 1, Fin 1] 1 1 1)
     (a_min f32_arith (entry [Fin 0, Fin 0, Fin 0, Fin 5] 2 1 0)
        (a_min f32_arith (entry [Fin 0, Fin 0, Fin 0, Fin 5] 2 0 1)
                         (entry [Fin 0, Fin 0, Fin 0, Fin 5] 2 0 0)))
     = Fin 0"
  by (simp add: f32_eval spec_local_cost_on_def)

text \<open>
  C3.  With buffers of the declared extents (\<open>m \<ge> 1\<close>, \<open>n \<ge> 0\<close>) and any window, the
  call returns a cost buffer of the same length: no read of \<open>X1\<close>, \<open>X2\<close>, \<open>W\<close> or
  \<open>C\<close> and no write of \<open>C\<close> leaves the extents, the branch \<open>OutOfBounds\<close> of the
  accessors is never taken.
\<close>

theorem accesses_within_extents:
  assumes "extents_ok x1 x2 w m n costs_out" "0 \<le> window"
  shows "\<exists>costs'. weighted_euclidean x1 x2 w m n window costs_out = Inr costs' \<and>
           length costs' = length costs_out"
  using kernel_fills[OF assms(1), of window] by blast

theorem accesses_within_extents_witness:
  "extents_ok [0, 1] [0, 3] [1, 2] 2 1 [5, 6, 7, 8] \<and> (0::int) \<le> 1 \<and>
   (\<exists>costs'. weighted_euclidean [0, 1] [0, 3] [1, 2] 2 1 1 [5, 6, 7, 8] = Inr costs' \<and>
      length costs' = length [5, 6, 7, 8::real])"
  using accesses_within_extents[of "[0, 1]" "[0, 3]" "[1, 2]" 2 1 "[5, 6, 7, 8]" 1]
  by (simp add: extents_ok_def)

text \<open>
  C8.  The concrete scenario: \<open>m = 3\<close>, \<open>n = 1\<close>, \<open>X1 = X2 = [0, 1, 2]\<close>,
  \<open>W = [1, 1, 1]\<close>, \<open>window = 3\<close>, \<open>C(0,0) = 0\<close> and the sentinel \<open>10^9\<close> in the rest
  of row 0 and column 0, whatever the interior holds.  The call yields \<open>C(1,1) = 0\<close> and
  \<open>C(2,2) = 0\<close>.
\<close>

theorem concrete_scenario:
  "weighted_euclidean [0, 1, 2] [0, 1, 2] [1, 1, 1] 3 1 3
      [0, 1000000000, 1000000000,
       1000000000, a, b,
       1000000000, c, d]
   = Inr [0, 1000000000, 1000000000,
          1000000000, 0, 1,
          1000000000, 1, 0] \<and>
   cell [0, 1000000000, 1000000000,
          1000000000, 0, 1,
          1000000000, 1, 0] 3 1 1 = 0 \<and>
   cell [0, 1000000000, 1000000000,
          1000000000, 0, 1,
          1000000000, 1, 0] 3 2 2 = 0"
  by (simp add: weighted_euclidean_def outer_loop.simps inner_loop.simps band_lo_def
      band_hi_def i32_def loop_body_def local_cost_def bind_err_def row_def coeff_def
      coeff_upd_def sq_diff_sum_def cell_def)

text \<open>
  C9.  For \<open>m = 1\<close> the outer loop does not run: the call returns the cost buffer it was
  given, whatever \<open>n\<close>, \<open>window\<close> and the buffers are.
\<close>

theorem single_row_unmodified:
  "weighted_euclidean x1 x2 w 1 n window costs_out = Inr costs_out"
  by (simp add: weighted_euclidean_def outer_loop.simps)

text \<open>
  C2 (as amended).  The band of the source is not symmetric: row \<open>i\<close> is evaluated for
  \<open>i - window \<le> j < i + window\<close>, so the cell \<open>(i, i - window)\<close>, at distance exactly
  \<open>window\<close> below the diagonal, is written when it exists.  With the declared extents,
  \<open>window \<ge> 0\<close> and \<open>m\<close> a 32-bit integer, every cell \<open>(a, b)\<close> of the matrix outside
  \<open>a \<ge> 1\<close>, \<open>b \<ge> 1\<close>, \<open>a - window \<le> b < a + window\<close>, in particular all of row 0
  and of column 0, holds after the call the value it held before.
\<close>

theorem writes_only_in_band:
  assumes "extents_ok x1 x2 w m n costs_out" "0 \<le> window" "int32 m"
  shows "\<exists>costs'. weighted_euclidean x1 x2 w m n window costs_out = Inr costs' \<and>
           length costs' = length costs_out \<and>
           (\<forall>a b. 0 \<le> a \<and> a < m \<and> 0 \<le> b \<and> b < m \<and>
                  \<not> (1 \<le> a \<and> 1 \<le> b \<and> a - window \<le> b \<and> b < a + window) \<longrightarrow>
              cell costs' m a b = cell costs_out m a b)"
proof -
  obtain c where c: "weighted_euclidean x1 x2 w m n window costs_out = Inr c"
    "length c = length costs_out"
    and fill: "\<And>a b. 0 \<le> a \<and> a < m \<and> 0 \<le> b \<and> b < m \<Longrightarrow>
              cell c m a b =
                (if in_band m window a b then recurrence x1 x2 w m n c a b
                 else cell costs_out m a b)"
    using kernel_fills[OF assms(1), of window] by blast
  have m: "m \<le> 2 ^ 31" using assms(3) by (simp add: int32_def)
  have "cell c m a b = cell costs_out m a b"
    if r: "0 \<le> a \<and> a < m \<and> 0 \<le> b \<and> b < m"
      and out: "\<not> (1 \<le> a \<and> 1 \<le> b \<and> a - window \<le> b \<and> b < a + window)" for a b
  proof -
    have "\<not> in_band m window a b"
      using band_within_diagonal[OF assms(2) m] out by blast
    then show ?thesis using fill[OF r] by simp
  qed
  then show ?thesis using c by blast
qed

theorem writes_only_in_band_witness:
  "extents_ok [0, 0, 0] [0, 0, 0] [1, 1, 1] 3 1 [0, 0, 0, 0, 0, 7, 0, 5, 0] \<and>
   (0::int) \<le> 1 \<and> int32 3 \<and>
   (\<exists>costs'. weighted_euclidean [0, 0, 0] [0, 0, 0] [1, 1, 1] 3 1 1
                [0, 0, 0, 0, 0, 7, 0, 5, 0] = Inr costs' \<and>
      cell costs' 3 1 2 = 7)"
proof -
  have e: "extents_ok [0, 0, 0] [0, 0, 0] [1, 1, 1] 3 1 [0, 0, 0, 0, 0, 7, 0, 5, 0]"
    by (simp add: extents_ok_def)
  have i: "int32 3" by (simp add: int32_def)
  have w: "(0::int) \<le> 1" by simp
  obtain c where c: "weighted_euclidean [0, 0, 0] [0, 0, 0] [1, 1, 1] 3 1 1
                [0, 0, 0, 0, 0, 7, 0, 5, 0] = Inr c"
    and f: "\<forall>a b. 0 \<le> a \<and> a < 3 \<and> 0 \<le> b \<and> b < 3 \<and>
                  \<not> (1 \<le> a \<and> 1 \<le> b \<and> a - 1 \<le> b \<and> b < a + 1) \<longrightarrow>
              cell c 3 a b = cell [0, 0, 0, 0, 0, 7, 0, 5, 0] 3 a b"
    using writes_only_in_band[OF e w i] by blast
  have "cell c 3 1 2 = 7" using f[rule_format, of 1 2] by (simp add: cell_def)
  then show ?thesis using e i c by simp
qed

text \<open>The claim as stated, with \<open>|i - j| < window\<close>, fails at \<open>m = 3\<close>, \<open>window = 1\<close>:
  the cell \<open>(2, 1)\<close> is at distance 1 from the diagonal and is overwritten.\<close>

theorem band_edge_written_counterexample:
  "weighted_euclidean [0, 0, 0] [0, 0, 0] [1, 1, 1] 3 1 1 [0, 0, 0, 0, 0, 7, 0, 5, 0]
     = Inr [0, 0, 0, 0, 0, 7, 0, 0, 0] \<and>
   \<not> \<bar>2 - 1\<bar> < (1::int) \<and>
   cell [0, 0, 0, 0, 0, 7, 0, 0, 0] 3 2 1 \<noteq> cell [0, 0, 0, 0, 0, 7, 0, 5, 0] 3 2 1"
  by (simp add: weighted_euclidean_def outer_loop.simps inner_loop.simps band_lo_def
      band_hi_def i32_def loop_body_def local_cost_def bind_err_def row_def coeff_def
      coeff_upd_def sq_diff_sum_def cell_def)

text \<open>
  C6 (as amended).  For \<open>m \<le> window\<close> and \<open>m + window \<le> 2^31\<close>, so that
  \<open>i + window\<close> does not overflow for any row \<open>i < m\<close>, the call with \<open>window\<close> returns
  exactly what the call with window \<open>m\<close> returns, on any buffers.
\<close>

theorem window_beyond_m_same_as_m:
  assumes "m \<le> window" "m + window \<le> 2 ^ 31"
  shows "weighted_euclidean x1 x2 w m n window costs_out
         = weighted_euclidean x1 x2 w m n m costs_out"
  unfolding weighted_euclidean_def
proof (rule outer_loop_cong)
  fix i' :: int
  assume i: "1 \<le> i'" "i' < m"
  have mm: "m + m \<le> 2 ^ 31" using assms by simp
  show "band_lo window i' = band_lo m i' \<and> band_hi m window i' = band_hi m m i'"
    using full_band[OF assms i] full_band[OF order_refl mm i] by simp
qed

theorem window_beyond_m_same_as_m_witness:
  "(2::int) \<le> 5 \<and> (2::int) + 5 \<le> 2 ^ 31 \<and>
   weighted_euclidean [0, 0] [0, 0] [1, 1] 2 1 5 [0, 0, 0, 5]
     = weighted_euclidean [0, 0] [0, 0] [1, 1] 2 1 2 [0, 0, 0, 5]"
  using window_beyond_m_same_as_m[of 2 5 "[0, 0]" "[0, 0]" "[1, 1]" 1 "[0, 0, 0, 5]"]
  by simp

text \<open>At \<open>window = 2^31 - 1\<close> and \<open>m = 2\<close> the sum \<open>1 + window\<close> wraps to \<open>- 2^31\<close>, the
  inner loop does not run and \<open>C(1,1)\<close> keeps the caller's value, whereas with
  \<open>window = m = 2\<close> it is evaluated.\<close>

theorem window_int_max_counterexample:
  "(2::int) \<le> 2147483647 \<and> int32 2147483647 \<and>
   weighted_euclidean [0, 0] [0, 0] [1, 1] 2 1 2147483647 [0, 0, 0, 5] = Inr [0, 0, 0, 5] \<and>
   weighted_euclidean [0, 0] [0, 0] [1, 1] 2 1 2 [0, 0, 0, 5] = Inr [0, 0, 0, 0]"
  by (simp add: int32_def weighted_euclidean_def outer_loop.simps inner_loop.simps band_lo_def
      band_hi_def i32_def loop_body_def local_cost_def bind_err_def row_def coeff_def
      coeff_upd_def sq_diff_sum_def)

text \<open>
  C7 (as amended).  The local cost at cell \<open>(i, j)\<close> for the inputs \<open>(X1, X2)\<close> equals the
  local cost at the transposed cell \<open>(j, i)\<close> for the swapped inputs \<open>(X2, X1)\<close>, with
  \<open>W\<close> unchanged (also when an access fails: both sides are then the same error).  On the
  diagonal \<open>i = j\<close> this is the claim's equation.
\<close>

theorem local_cost_swap_transposed:
  "local_cost x1 x2 w m n i j = local_cost x2 x1 w m n j i"
  by (cases "row x1 m n i"; cases "row x2 m n j"; cases "coeff w m 1 i 0";
      cases "coeff w m 1 j 0")
     (auto simp: local_cost_def bind_err_def mult.commute sq_diff_sum_commute[of _ "_ :: real list"]
           intro: error_unique)

text \<open>At the same cell the swap changes the local cost: at \<open>(1, 2)\<close> the first compares
  \<open>X1[1]\<close> with \<open>X2[2]\<close>, the second \<open>X2[1]\<close> with \<open>X1[2]\<close>.\<close>

theorem local_cost_swap_counterexample:
  "extents_ok [0, 0, 0] [0, 0, 1] [1, 1, 1] 3 1 [0, 0, 0, 0, 0, 0, 0, 0, 0] \<and>
   in_band 3 2 1 2 \<and>
   local_cost [0, 0, 0] [0, 0, 1] [1, 1, 1] 3 1 1 2 = Inr 1 \<and>
   local_cost [0, 0, 1] [0, 0, 0] [1, 1, 1] 3 1 1 2 = Inr 0"
  by (simp add: extents_ok_def in_band_def band_lo_def band_hi_def i32_def
      local_cost_def bind_err_def row_def coeff_def sq_diff_sum_def)

text \<open>
  C10 (as amended).  For \<open>m \<ge> 1\<close> and a 32-bit \<open>window \<le> 0\<close>, if \<open>m \<le> 2^30 + 1\<close> or
  \<open>m - window \<le> 2^31\<close> then every row's range is empty and the call returns the cost buffer
  it was given, on any buffers.
\<close>

theorem nonpositive_window_writes_nothing:
  assumes "1 \<le> m" "window \<le> 0" "int32 window"
    and "m \<le> 2 ^ 30 + 1 \<or> m - window \<le> 2 ^ 31"
  shows "weighted_euclidean x1 x2 w m n window costs_out = Inr costs_out"
  unfolding weighted_euclidean_def
  using assms by (intro outer_loop_empty empty_band_nonpositive_window) auto

theorem nonpositive_window_writes_nothing_witness:
  "(1::int) \<le> 3 \<and> (- 2 :: int) \<le> 0 \<and> int32 (- 2) \<and>
   ((3::int) \<le> 2 ^ 30 + 1 \<or> (3::int) - (- 2) \<le> 2 ^ 31) \<and>
   weighted_euclidean [0, 1, 2] [0, 1, 2] [1, 1, 1] 3 1 (- 2) [0, 1, 2, 3, 4, 5, 6, 7, 8]
     = Inr [0, 1, 2, 3, 4, 5, 6, 7, 8]"
  using nonpositive_window_writes_nothing[of 3 "- 2" "[0, 1, 2]" "[0, 1, 2]" "[1, 1, 1]" 1
      "[0, 1, 2, 3, 4, 5, 6, 7, 8]"]
  by (simp add: int32_def)

text \<open>Beyond that bound \<open>i - window\<close> can wrap: at \<open>m = 2^30 + 2\<close>,
  \<open>window = 1 - 2^30\<close> and the last row \<open>i = 2^30 + 1\<close>, \<open>i - window = 2^31\<close> wraps to
  \<open>- 2^31\<close>, the lower bound is 1, the upper bound is \<open>i + window = 2\<close>, and the cell
  \<open>(i, 1)\<close> is overwritten.\<close>

theorem negative_window_wraps_counterexample:
  "(1::int) \<le> 1073741826 \<and> (- 1073741823 :: int) \<le> 0 \<and> int32 (- 1073741823) \<and>
   weighted_euclidean [] [] (replicate 1073741826 0) 1073741826 0 (- 1073741823)
       ((replicate 1152921508901814276 1)[1152921507828072451 := 5])
     \<noteq> Inr ((replicate 1152921508901814276 1)[1152921507828072451 := 5])"
proof -
  let ?m = "1073741826 :: int"
  let ?win = "- 1073741823 :: int"
  let ?w = "replicate 1073741826 (0::real)"
  let ?c0 = "(replicate 1152921508901814276 (1::real))[1152921507828072451 := 5]"
  have ext: "extents_ok [] [] ?w ?m 0 ?c0"
    by (simp add: extents_ok_def)
  obtain c where c: "weighted_euclidean [] [] ?w ?m 0 ?win ?c0 = Inr c"
    and fill: "\<And>a b. 0 \<le> a \<and> a < ?m \<and> 0 \<le> b \<and> b < ?m \<Longrightarrow>
              cell c ?m a b =
                (if in_band ?m ?win a b then recurrence [] [] ?w ?m 0 c a b
                 else cell ?c0 ?m a b)"
    using kernel_fills[OF ext, of ?win] by blast
  have band: "in_band ?m ?win 1073741825 1"
    by (simp add: in_band_def band_lo_def band_hi_def i32_def)
  have p1: "cell c ?m 1073741825 0 = 1"
    using fill[of 1073741825 0]
    by (simp add: in_band_def band_lo_def band_hi_def i32_def cell_def)
  have p2: "cell c ?m 1073741824 1 = 1"
    using fill[of 1073741824 1]
    by (simp add: in_band_def band_lo_def band_hi_def i32_def cell_def)
  have p3: "cell c ?m 1073741824 0 = 1"
    using fill[of 1073741824 0]
    by (simp add: in_band_def band_lo_def band_hi_def i32_def cell_def)
  have "cell c ?m 1073741825 1 = recurrence [] [] ?w ?m 0 c 1073741825 1"
    using fill[of 1073741825 1] band by simp
  then have "cell c ?m 1073741825 1 = 1"
    using p1 p2 p3 by (simp add: recurrence_def spec_local_cost_def)
  moreover have "cell ?c0 ?m 1073741825 1 = 5"
    by (simp add: cell_def)
  ultimately have "c \<noteq> ?c0" by auto
  then show ?thesis using c by (simp add: int32_def)
qed

text \<open>
  C4 (as amended).  For \<open>window \<ge> 0\<close> with \<open>m + window \<le> 2^31\<close>, in an arithmetic
  with the sign rules of binary32: if every weight \<open>W[a]\<close> with \<open>1 \<le> a < m\<close> is not
  negative and every boundary value of \<open>C\<close> that the recurrence reads is not negative
  before the call (finite and non-negative, in particular), then after the call no cell
  \<open>C(i, j)\<close> with \<open>i\<close> in \<open>[1, m)\<close> and \<open>j\<close> in
  \<open>[max(1, i - window), min(m, i + window))\<close> is negative: it is a non-negative number,
  or \<open>+inf\<close> or a NaN where an operation overflowed.  Finiteness is not promised.
\<close>

theorem band_cells_not_negative:
  assumes "shape_ok x1 x2 w m n costs_out"
    and "0 \<le> window" "m + window \<le> 2 ^ 31"
    and "sign_laws ar"
    and "\<forall>a. 1 \<le> a \<and> a < m \<longrightarrow> not_neg ar (w ! nat a)"
    and "\<forall>a b. spec_boundary m window a b \<longrightarrow> not_neg ar (entry costs_out m a b)"
    and "1 \<le> i" "i < m" "max 1 (i - window) \<le> j" "j < min m (i + window)"
  shows "\<exists>costs'. weighted_euclidean_on ar x1 x2 w m n window costs_out = Inr costs' \<and>
           not_neg ar (entry costs' m i j)"
proof -
  obtain c where c: "weighted_euclidean_on ar x1 x2 w m n window costs_out = Inr c"
    and fill: "\<And>a b. 0 \<le> a \<and> a < m \<and> 0 \<le> b \<and> b < m \<Longrightarrow>
              entry c m a b =
                (if in_band m window a b then recurrence_on ar x1 x2 w m n c a b
                 else entry costs_out m a b)"
    using kernel_on_fills[OF assms(1), of ar window] by blast
  note eq = spec_band_in_band[OF assms(2,3)]
  have band: "spec_band m window i j" using assms(7-10) by (simp add: spec_band_def)
  have "not_neg ar (entry c m i j)"
  proof (rule band_cells_not_neg[where init = costs_out and window = window and w = w
        and ?x1.0 = x1 and ?x2.0 = x2 and n = n])
    fix a b assume "0 \<le> a \<and> a < m \<and> 0 \<le> b \<and> b < m"
    then show "entry c m a b =
                (if spec_band m window a b then recurrence_on ar x1 x2 w m n c a b
                 else entry costs_out m a b)" using fill[of a b] by (simp add: eq)
  next
    show "sign_laws ar" by (rule assms(4))
  next
    fix a assume "1 \<le> a \<and> a < m"
    then show "not_neg ar (w ! nat a)" using assms(5) by blast
  next
    fix a b assume "spec_boundary m window a b"
    then show "not_neg ar (entry costs_out m a b)" using assms(6) by blast
  next
    show "spec_band m window i j" by (rule band)
  qed
  then show ?thesis using c by simp
qed

theorem band_cells_not_negative_witness:
  "shape_ok [Fin 0, Fin 0] [Fin 0, Fin 1] [Fin 1, Fin 1] 2 1 [Fin 0, Fin 0, Fin 0, Fin 5] \<and>
   (0::int) \<le> 1 \<and> (2::int) + 1 \<le> 2 ^ 31 \<and>
   (1::int) \<le> 1 \<and> (1::int) < 2 \<and> max 1 (1 - 1) \<le> (1::int) \<and> (1::int) < min 2 (1 + 1) \<and>
   (\<exists>costs'. weighted_euclidean_on f32_arith [Fin 0, Fin 0] [Fin 0, Fin 1] [Fin 1, Fin 1]
                2 1 1 [Fin 0, Fin 0, Fin 0, Fin 5] = Inr costs' \<and>
      not_neg f32_arith (entry costs' 2 1 1))"
proof -
  have e: "shape_ok [Fin 0, Fin 0] [Fin 0, Fin 1] [Fin 1, Fin 1] 2 1
             [Fin 0, Fin 0, Fin 0, Fin 5]"
    by (simp add: shape_ok_def)
  have ws: "(0::int) \<le> 1" "(2::int) + 1 \<le> 2 ^ 31" by simp_all
  have wp: "\<forall>a. 1 \<le> a \<and> a < 2 \<longrightarrow> not_neg f32_arith ([Fin 1, Fin 1] ! nat a)"
  proof (intro allI impI)
    fix a :: int assume "1 \<le> a \<and> a < 2"
    then have "a = 1" by simp
    then show "not_neg f32_arith ([Fin 1, Fin 1] ! nat a)" by (simp add: not_neg_f32)
  qed
  have bp: "\<forall>a b. spec_boundary 2 1 a b \<longrightarrow>
              not_neg f32_arith (entry [Fin 0, Fin 0, Fin 0, Fin 5] 2 a b)"
  proof (intro allI impI)
    fix a b :: int assume "spec_boundary 2 1 a b"
    then have "(a = 1 \<and> b = 0) \<or> (a = 0 \<and> b = 1) \<or> (a = 0 \<and> b = 0)"
      by (auto simp: spec_boundary_def spec_band_def)
    then show "not_neg f32_arith (entry [Fin 0, Fin 0, Fin 0, Fin 5] 2 a b)"
      by (auto simp: entry_def not_neg_f32)
  qed
  have b: "(1::int) \<le> 1" "(1::int) < 2" "max 1 (1 - 1) \<le> (1::int)" "(1::int) < min 2 (1 + 1)"
    by simp_all
  show ?thesis
    using band_cells_not_negative[OF e ws sign_laws_f32 wp bp b] e by simp
qed

text \<open>The claim as stated fails in four ways, each on a cost matrix whose boundary is
  finite and non-negative, evaluated in binary32.
  \<^item> A negative weight: with \<open>W = [1, 1, - 1]\<close> the local cost at \<open>(1, 2)\<close> is
    \<open>- 1\<close> and so is \<open>C(1, 2)\<close>.
  \<^item> Overflow: with \<open>W[1] = 2^64\<close> the product \<open>W[1] * W[1]\<close> is \<open>+inf\<close>; times a
    distance of 1 the cell is \<open>+inf\<close>.
  \<^item> NaN: the same weights with a distance of 0 give \<open>inf * 0\<close>, a NaN.
  \<^item> Wrap-around: at \<open>window = 2^31 - 1\<close> the cell \<open>(1, 1)\<close> of the claimed range is
    not evaluated and keeps the caller's \<open>- 5\<close>.
\<close>

theorem not_finite_nonneg_counterexample:
  "weighted_euclidean_on f32_arith [Fin 0, Fin 0, Fin 0] [Fin 0, Fin 0, Fin 1]
       [Fin 1, Fin 1, Fin (- 1)] 3 1 2
       [Fin 0, Fin 0, Fin 0, Fin 0, Fin 0, Fin 0, Fin 0, Fin 0, Fin 0]
     = Inr [Fin 0, Fin 0, Fin 0, Fin 0, Fin 0, Fin (- 1), Fin 0, Fin 0, Fin 0] \<and>
   max 1 (1 - 2) \<le> (2::int) \<and> (2::int) < min 3 (1 + 2) \<and>
   \<not> not_neg f32_arith (Fin (- 1)) \<and>
   weighted_euclidean_on f32_arith [Fin 0, Fin 0] [Fin 0, Fin 1] [Fin 1, Fin (2 ^ 64)] 2 1 1
       [Fin 0, Fin 0, Fin 0, Fin 5]
     = Inr [Fin 0, Fin 0, Fin 0, PInf] \<and>
   weighted_euclidean_on f32_arith [Fin 0, Fin 0] [Fin 0, Fin 0] [Fin 1, Fin (2 ^ 64)] 2 1 1
       [Fin 0, Fin 0, Fin 0, Fin 5]
     = Inr [Fin 0, Fin 0, Fin 0, NaN] \<and>
   max 1 (1 - 1) \<le> (1::int) \<and> (1::int) < min 2 (1 + 1) \<and>
   weighted_euclidean_on f32_arith [Fin 0, Fin 0] [Fin 0, Fin 0] [Fin 1, Fin 1] 2 1 2147483647
       [Fin 0, Fin 0, Fin 0, Fin (- 5)]
     = Inr [Fin 0, Fin 0, Fin 0, Fin (- 5)] \<and>
   max 1 (1 - 2147483647) \<le> (1::int) \<and> (1::int) < min 2 (1 + 2147483647)"
  by (simp add: f32_eval not_neg_def)




end
